theory Spec2Isabelle
  imports Main
begin

section \<open>The program representation\<close>

text \<open>
  \<^verbatim>\<open>HoistIntoGlobals.cpp\<close> rewrites an MLIR module in place. The module is modelled
  as a store of operations addressed by handles (\<open>Operation *\<close> in the source, numbers
  here), together with the pre-order linearisation of the module body: \<open>opOrder\<close> lists
  the handles of all operations that are in the module, in the order a pre-order walk meets
  them, and \<open>depth\<close> is the nesting depth of an operation (0 for an operation of the
  module body, 1 for an operation in the body of a function or an initializer, ...).
  The operations nested in \<open>i\<close> are the run of deeper operations that follows \<open>i\<close>.
  Handles are never reused: \<open>next_id\<close> is the next fresh one.
\<close>

type_synonym op_id = nat

type_synonym ty = nat

datatype val = OpResult op_id nat | BlockArg op_id nat

datatype visibility = Public | Private | Nested

datatype op_kind =
    GlobalOp string bool ty visibility
  | InitializerOp
  | InitializerReturnOp
  | GlobalLoadOp op_id
  | GlobalStoreOp op_id
  | OtherOp string

record operation =
  kind :: op_kind
  operands :: "val list"
  results :: "ty list"
  depth :: nat

record module_state =
  opsOf :: "op_id \<Rightarrow> operation"
  opOrder :: "op_id list"
  next_id :: op_id

text \<open>An \<open>OpOperand *\<close>: the owning operation and the operand number.\<close>

type_synonym op_operand = "op_id \<times> nat"

definition operandGet :: "module_state \<Rightarrow> op_operand \<Rightarrow> val" where
  "operandGet s u = operands (opsOf s (fst u)) ! snd u"

definition operandSet :: "op_operand \<Rightarrow> val \<Rightarrow> module_state \<Rightarrow> module_state" where
  "operandSet u v s =
     s\<lparr>opsOf := (opsOf s)(fst u := (opsOf s (fst u))
          \<lparr>operands := (operands (opsOf s (fst u)))[snd u := v]\<rparr>)\<rparr>"

definition numResults :: "module_state \<Rightarrow> op_id \<Rightarrow> nat" where
  "numResults s i = length (results (opsOf s i))"

text \<open>
  \<open>Value::getUses\<close>: every operand of an operation of the module that holds the value.
  The source iterates the use list of the value; the order of that list is not modelled, the
  operands are enumerated in module order.
\<close>

definition usesIn :: "module_state \<Rightarrow> val \<Rightarrow> op_id \<Rightarrow> op_operand list" where
  "usesIn s v t =
     map (\<lambda>k. (t, k)) (filter (\<lambda>k. operands (opsOf s t) ! k = v) [0..<length (operands (opsOf s t))])"

definition getUses :: "module_state \<Rightarrow> val \<Rightarrow> op_operand list" where
  "getUses s v = concat (map (usesIn s v) (opOrder s))"

text \<open>\<open>Operation::use_empty\<close>: no result of the operation has a use.\<close>

definition use_empty :: "module_state \<Rightarrow> op_id \<Rightarrow> bool" where
  "use_empty s i = (\<forall>j \<in> set [0..<numResults s i]. getUses s (OpResult i j) = [])"

subsection \<open>Builders\<close>

text \<open>
  An \<open>OpBuilder\<close> is an insertion point: before an operation, or at the end of a block
  (\<open>None\<close>: the module body; \<open>Some i\<close>: the body of \<open>i\<close>).
\<close>

datatype ins_point = BeforeOp op_id | AtBlockEnd "op_id option"

definition deeper :: "module_state \<Rightarrow> op_id \<Rightarrow> op_id \<Rightarrow> bool" where
  "deeper s i j = (depth (opsOf s i) < depth (opsOf s j))"

definition subtree :: "module_state \<Rightarrow> op_id \<Rightarrow> op_id list" where
  "subtree s i = takeWhile (deeper s i) (tl (dropWhile (\<lambda>x. x \<noteq> i) (opOrder s)))"

definition insertBefore :: "op_id \<Rightarrow> op_id list \<Rightarrow> op_id list \<Rightarrow> op_id list" where
  "insertBefore t new xs = takeWhile (\<lambda>x. x \<noteq> t) xs @ new @ dropWhile (\<lambda>x. x \<noteq> t) xs"

definition insertAtEndOf :: "module_state \<Rightarrow> op_id \<Rightarrow> op_id list \<Rightarrow> op_id list" where
  "insertAtEndOf s i new =
     (case dropWhile (\<lambda>x. x \<noteq> i) (opOrder s) of
        [] \<Rightarrow> opOrder s @ new
      | h # after \<Rightarrow> takeWhile (\<lambda>x. x \<noteq> i) (opOrder s) @ h # takeWhile (deeper s i) after
                      @ new @ dropWhile (deeper s i) after)"

fun placeAt :: "ins_point \<Rightarrow> op_id list \<Rightarrow> module_state \<Rightarrow> op_id list" where
  "placeAt (BeforeOp t) new s = insertBefore t new (opOrder s)"
| "placeAt (AtBlockEnd None) new s = opOrder s @ new"
| "placeAt (AtBlockEnd (Some i)) new s = insertAtEndOf s i new"

fun depthAt :: "module_state \<Rightarrow> ins_point \<Rightarrow> nat" where
  "depthAt s (BeforeOp t) = depth (opsOf s t)"
| "depthAt s (AtBlockEnd None) = 0"
| "depthAt s (AtBlockEnd (Some i)) = Suc (depth (opsOf s i))"

text \<open>\<open>OpBuilder::create\<close>: allocate an operation and insert it at the insertion point.\<close>

definition create ::
  "ins_point \<Rightarrow> op_kind \<Rightarrow> val list \<Rightarrow> ty list \<Rightarrow> module_state \<Rightarrow> op_id \<times> module_state" where
  "create ip k args tys s =
     (next_id s,
      \<lparr>opsOf = (opsOf s)(next_id s :=
           \<lparr>kind = k, operands = args, results = tys, depth = depthAt s ip\<rparr>),
       opOrder = placeAt ip [next_id s] s,
       next_id = Suc (next_id s)\<rparr>)"

text \<open>\<open>getModuleBeginBuilder\<close> and \<open>getModuleEndBuilder\<close>. \<open>OpBuilder::atBlockBegin\<close>
  points before the operation that is first in the block when the builder is made.\<close>

definition getModuleBeginBuilder :: "module_state \<Rightarrow> ins_point" where
  "getModuleBeginBuilder s = (case opOrder s of [] \<Rightarrow> AtBlockEnd None | f # _ \<Rightarrow> BeforeOp f)"

definition getModuleEndBuilder :: "module_state \<Rightarrow> ins_point" where
  "getModuleEndBuilder s = AtBlockEnd None"

subsection \<open>Cloning with a value mapping\<close>

text \<open>
  \<open>BlockAndValueMapping\<close> and \<open>Operation::clone(mapper)\<close>: the operation and the
  operations nested in it are copied, operands are replaced by what the mapping holds for
  them (and kept where it holds nothing), and the results and block arguments of each copied
  operation are mapped to those of its copy.
\<close>

type_synonym clone_map = "val \<Rightarrow> val option"

definition lookupOrDefault :: "clone_map \<Rightarrow> val \<Rightarrow> val" where
  "lookupOrDefault cm v = (case cm v of None \<Rightarrow> v | Some w \<Rightarrow> w)"

definition mapResults :: "clone_map \<Rightarrow> op_id \<Rightarrow> nat \<Rightarrow> op_id \<Rightarrow> clone_map" where
  "mapResults cm j n c =
     (\<lambda>v. case v of
            OpResult a k \<Rightarrow> if a = j \<and> k < n then Some (OpResult c k) else cm v
          | BlockArg a k \<Rightarrow> if a = j then Some (BlockArg c k) else cm v)"

fun cloneRun ::
  "(op_id \<Rightarrow> operation) \<Rightarrow> nat \<Rightarrow> nat \<Rightarrow> op_id list \<Rightarrow>
   clone_map \<times> (op_id \<Rightarrow> operation) \<times> op_id \<Rightarrow>
   op_id list \<times> clone_map \<times> (op_id \<Rightarrow> operation) \<times> op_id" where
  "cloneRun src d0 dsrc [] (cm, os, n) = ([], cm, os, n)"
| "cloneRun src d0 dsrc (j # js) (cm, os, n) =
     (let c = \<lparr>kind = kind (src j),
               operands = map (lookupOrDefault cm) (operands (src j)),
               results = results (src j),
               depth = d0 + (depth (src j) - dsrc)\<rparr>;
          (ids, cm', os', n') =
            cloneRun src d0 dsrc js (mapResults cm j (length (results (src j))) n, os(n := c), Suc n)
      in (n # ids, cm', os', n'))"

text \<open>\<open>builder.insert(op->clone(cloneMap))\<close>; the result is the handle of the copy.\<close>

definition cloneOp ::
  "ins_point \<Rightarrow> op_id \<Rightarrow> clone_map \<times> module_state \<Rightarrow> op_id \<times> clone_map \<times> module_state" where
  "cloneOp ip i cs =
     (let cm = fst cs; s = snd cs;
          (ids, cm', os', n') =
            cloneRun (opsOf s) (depthAt s ip) (depth (opsOf s i)) (i # subtree s i)
              (cm, opsOf s, next_id s)
      in (next_id s, cm', \<lparr>opsOf = os', opOrder = placeAt ip ids s, next_id = n'\<rparr>))"

section \<open>The analysis and the policy oracle\<close>

text \<open>
  \<open>ConstExprAnalysis\<close>, \<open>isHoistableConstExprLeaf\<close>,
  \<open>isHoistableConstExprConsumingOperand\<close> and MLIR's \<open>getBackwardSlice\<close> are declared
  in headers that are not part of the pass; the pass takes them as given. They are the
  fields of a parameter \<open>env\<close>: \<open>lookup\<close> is \<open>ConstExprAnalysis::lookup\<close>
  (\<open>None\<close> for the null pointer), \<open>constExprOperations\<close> is what
  \<open>populateConstExprOperations\<close> adds to the set, and \<open>getBackwardSlice\<close> computes
  the slice of an operation in the module as it is when the call is made.
\<close>

record const_value_info =
  constOp :: op_id
  isRoot :: bool
  isConstExpr :: bool

record analysis =
  lookup :: "op_id \<Rightarrow> const_value_info option"
  isHoistableConstExprLeaf :: "const_value_info \<Rightarrow> bool"
  isHoistableConstExprConsumingOperand :: "op_operand \<Rightarrow> bool"
  constExprOperations :: "op_id list"
  getBackwardSlice :: "module_state \<Rightarrow> op_id \<Rightarrow> op_id list"

section \<open>The pass\<close>

text \<open>The assertions of the source, and the use of an operation after it was destroyed.\<close>

datatype error = NoDefiningOp | NotMapped | UseAfterErase

text \<open>\<open>HoistedValueMap\<close>: original value to the handle of its global.\<close>

type_synonym hoisted_map = "val \<Rightarrow> op_id option"

definition globalTypes :: "module_state \<Rightarrow> op_id \<Rightarrow> ty list" where
  "globalTypes s g = (case kind (opsOf s g) of GlobalOp _ _ t _ \<Rightarrow> [t] | _ \<Rightarrow> [])"

subsection \<open>cloneConstExprInto\<close>

text \<open>The loop over the results of a slice operation (lines 172 to 179): it stops at the
  first result that has no global, and every result met before gets a load.\<close>

fun reuseResults ::
  "hoisted_map \<Rightarrow> ins_point \<Rightarrow> op_id \<Rightarrow> nat list \<Rightarrow>
   bool \<times> clone_map \<times> module_state \<Rightarrow> bool \<times> clone_map \<times> module_state" where
  "reuseResults hm ib sourceOp [] acc = acc"
| "reuseResults hm ib sourceOp (j # js) (needsClone, cm, s) =
     (case hm (OpResult sourceOp j) of
        None \<Rightarrow> (needsClone, cm, s)
      | Some existingGlobal \<Rightarrow>
          (let (l, s') = create ib (GlobalLoadOp existingGlobal) [] (globalTypes s existingGlobal) s
           in reuseResults hm ib sourceOp js
                (False, cm(OpResult sourceOp j \<mapsto> OpResult l 0), s')))"

text \<open>The body of the loop over the slice (lines 166 to 186).\<close>

definition cloneSliceOp ::
  "hoisted_map \<Rightarrow> ins_point \<Rightarrow> op_id \<Rightarrow> clone_map \<times> module_state \<Rightarrow> clone_map \<times> module_state" where
  "cloneSliceOp hm ib sourceOp cs =
     (let (needsClone, cm1, s1) =
            reuseResults hm ib sourceOp [0..<numResults (snd cs) sourceOp] (True, fst cs, snd cs)
      in if needsClone then snd (cloneOp ib sourceOp (cm1, s1)) else (cm1, s1))"

text \<open>The loop over the results of the root operation (lines 195 to 209): a global at the
  module begin builder, the entry of the map, and the store in the initializer. The global
  is created and then made private; the model creates it private.\<close>

fun storeResults ::
  "ins_point \<Rightarrow> ins_point \<Rightarrow> clone_map \<Rightarrow> op_id \<Rightarrow> (nat \<times> ty) list \<Rightarrow>
   hoisted_map \<times> module_state \<Rightarrow> hoisted_map \<times> module_state" where
  "storeResults gb ib cm rootOp [] acc = acc"
| "storeResults gb ib cm rootOp ((j, t) # rs) (hm, s) =
     (let clonedResult = lookupOrDefault cm (OpResult rootOp j);
          (globalOp, s1) = create gb (GlobalOp ''hoisted'' False t Private) [] [] s;
          (st, s2) = create ib (GlobalStoreOp globalOp) [clonedResult] [] s1
      in storeResults gb ib cm rootOp rs (hm(OpResult rootOp j \<mapsto> globalOp), s2))"

definition cloneConstExprInto ::
  "analysis \<Rightarrow> op_id \<Rightarrow> val \<Rightarrow> module_state \<times> hoisted_map \<Rightarrow>
   error + module_state \<times> hoisted_map" where
  "cloneConstExprInto env initializerOp constExprValue sh =
     (case constExprValue of
        BlockArg _ _ \<Rightarrow> Inl NoDefiningOp
      | OpResult rootOp _ \<Rightarrow>
          (let s = fst sh; hm = snd sh;
               initBuilder = AtBlockEnd (Some initializerOp);
               slice = getBackwardSlice env s rootOp;
               (cloneMap, s1) = fold (cloneSliceOp hm initBuilder) slice (Map.empty, s);
               globalBuilder = getModuleBeginBuilder s1;
               (clonedRootOp, cloneMap2, s2) = cloneOp initBuilder rootOp (cloneMap, s1);
               (hm', s3) = storeResults globalBuilder initBuilder cloneMap2 rootOp
                             (enumerate 0 (results (opsOf s2 rootOp))) (hm, s2);
               (r, s4) = create initBuilder InitializerReturnOp [] [] s3
           in Inr (s4, hm')))"

subsection \<open>hoistConstExpr\<close>

definition hoistConstExpr ::
  "analysis \<Rightarrow> op_operand \<Rightarrow> module_state \<times> hoisted_map \<Rightarrow> error + module_state \<times> hoisted_map" where
  "hoistConstExpr env operand sh =
     (let s = fst sh; hoistedMap = snd sh;
          targetOp = fst operand;
          originalValue = operandGet s operand
      in case (case hoistedMap originalValue of
                 Some _ \<Rightarrow> Inr (s, hoistedMap)
               | None \<Rightarrow>
                   (let (initializerOp, s1) = create (getModuleEndBuilder s) InitializerOp [] [] s
                    in cloneConstExprInto env initializerOp originalValue (s1, hoistedMap))) of
           Inl e \<Rightarrow> Inl e
         | Inr (s2, hm2) \<Rightarrow>
             (case hm2 originalValue of
                None \<Rightarrow> Inl NotMapped
              | Some existingGlobal \<Rightarrow>
                  (let (load, s3) = create (BeforeOp targetOp) (GlobalLoadOp existingGlobal) []
                                      (globalTypes s2 existingGlobal) s2
                   in Inr (operandSet operand (OpResult load 0) s3, hm2))))"

subsection \<open>runOnOperation\<close>

definition isConstExprLeaf :: "analysis \<Rightarrow> op_id \<Rightarrow> bool" where
  "isConstExprLeaf env t =
     (case lookup env t of
        None \<Rightarrow> False
      | Some targetInfo \<Rightarrow> isConstExpr targetInfo \<and> isHoistableConstExprLeaf env targetInfo)"

text \<open>The loop over the snapshot of the uses (lines 87 to 113).\<close>

fun hoistUses ::
  "analysis \<Rightarrow> op_operand list \<Rightarrow> module_state \<times> hoisted_map \<Rightarrow> error + module_state \<times> hoisted_map" where
  "hoistUses env [] sh = Inr sh"
| "hoistUses env (operand # uses) sh =
     (if isConstExprLeaf env (fst operand) then hoistUses env uses sh
      else if \<not> isHoistableConstExprConsumingOperand env operand then hoistUses env uses sh
      else case hoistConstExpr env operand sh of
             Inl e \<Rightarrow> Inl e
           | Inr sh' \<Rightarrow> hoistUses env uses sh')"

text \<open>The loop over the results of the operation (lines 79 to 114).\<close>

fun hoistResults ::
  "analysis \<Rightarrow> op_id \<Rightarrow> nat list \<Rightarrow> module_state \<times> hoisted_map \<Rightarrow> error + module_state \<times> hoisted_map" where
  "hoistResults env iterOp [] sh = Inr sh"
| "hoistResults env iterOp (j # js) sh =
     (case hoistUses env (getUses (fst sh) (OpResult iterOp j)) sh of
        Inl e \<Rightarrow> Inl e
      | Inr sh' \<Rightarrow> hoistResults env iterOp js sh')"

text \<open>The callback of the walk (lines 65 to 117).\<close>

definition isHoistableOp :: "analysis \<Rightarrow> op_id \<Rightarrow> bool" where
  "isHoistableOp env iterOp =
     (case lookup env iterOp of
        None \<Rightarrow> False
      | Some iterInfo \<Rightarrow>
          \<not> isRoot iterInfo \<and> isConstExpr iterInfo \<and> isHoistableConstExprLeaf env iterInfo)"

definition visitOp ::
  "analysis \<Rightarrow> op_id \<Rightarrow> module_state \<times> hoisted_map \<Rightarrow> error + module_state \<times> hoisted_map" where
  "visitOp env iterOp sh =
     (if \<not> isHoistableOp env iterOp then Inr sh
      else hoistResults env iterOp [0..<numResults (fst sh) iterOp] sh)"

text \<open>
  The pre-order walk. Operations that the pass creates are unknown to the analysis (its
  \<open>lookup\<close> has nothing for them), so the callback returns at once on them, and the walk
  erases and moves nothing: it is modelled as the loop over the operations that are in the
  module when it starts, in pre-order.
\<close>

fun walk ::
  "analysis \<Rightarrow> op_id list \<Rightarrow> module_state \<times> hoisted_map \<Rightarrow> error + module_state \<times> hoisted_map" where
  "walk env [] sh = Inr sh"
| "walk env (iterOp # rest) sh =
     (case visitOp env iterOp sh of
        Inl e \<Rightarrow> Inl e
      | Inr sh' \<Rightarrow> walk env rest sh')"

subsection \<open>cleanupDeadOps\<close>

text \<open>\<open>Operation::erase\<close> destroys the operation and the operations nested in it.\<close>

definition eraseOp :: "module_state \<Rightarrow> op_id \<Rightarrow> module_state" where
  "eraseOp s i = s\<lparr>opOrder := filter (\<lambda>x. x \<notin> set (i # subtree s i)) (opOrder s)\<rparr>"

text \<open>
  One pass over the worklist (lines 230 to 238). The worklist is a copy of \<open>allOps\<close> made
  before the pass; an entry that was destroyed earlier in it (it was nested in an operation
  that was erased) is a dangling pointer, and using it is the error \<open>UseAfterErase\<close>.
\<close>

fun sweep ::
  "op_id list \<Rightarrow> bool \<times> op_id list \<times> module_state \<Rightarrow> error + bool \<times> op_id list \<times> module_state" where
  "sweep [] acc = Inr acc"
| "sweep (checkOp # worklist) (madeChanges, allOps, s) =
     (if checkOp \<notin> set (opOrder s) then Inl UseAfterErase
      else if use_empty s checkOp
           then sweep worklist (True, removeAll checkOp allOps, eraseOp s checkOp)
           else sweep worklist (madeChanges, allOps, s))"

text \<open>A pass that erases something takes its operation out of \<open>allOps\<close>: the loop
  of \<open>cleanupDeadOps\<close> ends.\<close>

lemma eraseOp_not_in: "i \<notin> set (opOrder (eraseOp s i))"
  by (simp add: eraseOp_def)

lemma eraseOp_subset: "set (opOrder (eraseOp s i)) \<subseteq> set (opOrder s)"
  by (auto simp add: eraseOp_def)

lemma sweep_shrinks:
  "sweep ws (mc, a, s) = Inr (mc', a', s') \<Longrightarrow> set ws \<inter> set (opOrder s) \<subseteq> set a \<Longrightarrow>
   length a' \<le> length a \<and> (mc' \<longrightarrow> mc \<or> length a' < length a)"
proof (induction ws arbitrary: mc a s)
  case Nil
  then show ?case by simp
next
  case (Cons c ws)
  from Cons.prems(1) have cin: "c \<in> set (opOrder s)" by (auto split: if_splits)
  show ?case
  proof (cases "use_empty s c")
    case True
    with Cons.prems(1) cin have sw: "sweep ws (True, removeAll c a, eraseOp s c) = Inr (mc', a', s')"
      by simp
    have sub: "set ws \<inter> set (opOrder (eraseOp s c)) \<subseteq> set (removeAll c a)"
      using Cons.prems(2) eraseOp_not_in[of c s] eraseOp_subset[of s c] by auto
    from Cons.prems(2) cin have "c \<in> set a" by auto
    then have "length (removeAll c a) < length a"
      by (simp add: length_removeAll_less)
    with Cons.IH[OF sw sub] show ?thesis by auto
  next
    case False
    with Cons.prems(1) cin have sw: "sweep ws (mc, a, s) = Inr (mc', a', s')" by simp
    from Cons.prems(2) have "set ws \<inter> set (opOrder s) \<subseteq> set a" by auto
    from Cons.IH[OF sw this] show ?thesis .
  qed
qed

text \<open>The loop \<open>while (madeChanges)\<close> (lines 222 to 239).\<close>

function cleanupLoop :: "op_id list \<Rightarrow> module_state \<Rightarrow> error + op_id list \<times> module_state" where
  "cleanupLoop allOps s =
     (case sweep allOps (False, allOps, s) of
        Inl e \<Rightarrow> Inl e
      | Inr (madeChanges, allOps', s') \<Rightarrow>
          if madeChanges then cleanupLoop allOps' s' else Inr (allOps', s'))"
  by pat_completeness auto
termination
proof (relation "measure (\<lambda>(allOps, s). length allOps)")
  show "wf (measure (\<lambda>(allOps, s). length allOps))" by simp
next
  fix allOps s x2 x y xa ya
  assume "sweep allOps (False, allOps, s) = Inr x2" "(x, y) = x2" "(xa, ya) = y" "x"
  then have "sweep allOps (False, allOps, s) = Inr (True, xa, ya)" by auto
  from sweep_shrinks[OF this] show "((xa, ya), allOps, s) \<in> measure (\<lambda>(allOps, s). length allOps)"
    by auto
qed

text \<open>\<open>allOps\<close> is a set in the source: an operation is in it once. The model returns
  what is left of it together with the module.\<close>

definition cleanupDeadOps :: "analysis \<Rightarrow> module_state \<Rightarrow> error + op_id list \<times> module_state" where
  "cleanupDeadOps env s = cleanupLoop (remdups (constExprOperations env)) s"

definition runOnOperation :: "analysis \<Rightarrow> module_state \<Rightarrow> error + module_state" where
  "runOnOperation env s =
     (case walk env (opOrder s) (s, Map.empty) of
        Inl e \<Rightarrow> Inl e
      | Inr (s', hoistedMap) \<Rightarrow>
          (case cleanupDeadOps env s' of Inl e \<Rightarrow> Inl e | Inr (allOps, s'') \<Rightarrow> Inr s''))"

section \<open>Well-formed modules and what a step leaves alone\<close>

text \<open>
  \<open>wfState\<close>: an operation is in the module once, and its handle has been allocated.
  \<open>frame s s'\<close>: from \<open>s\<close> to \<open>s'\<close> handles were only allocated, the operations that
  existed are as they were, and they are in the module in the same order as before.
\<close>

definition wfState :: "module_state \<Rightarrow> bool" where
  "wfState s = (distinct (opOrder s) \<and> (\<forall>i \<in> set (opOrder s). i < next_id s))"

definition frame :: "module_state \<Rightarrow> module_state \<Rightarrow> bool" where
  "frame s s' =
     (next_id s \<le> next_id s' \<and>
      (\<forall>i. i < next_id s \<longrightarrow> opsOf s' i = opsOf s i) \<and>
      filter (\<lambda>i. i < next_id s) (opOrder s') = filter (\<lambda>i. i < next_id s) (opOrder s) \<and>
      set (opOrder s') \<subseteq> set (opOrder s) \<union> {next_id s..<next_id s'})"

definition cloneSize :: "module_state \<Rightarrow> op_id \<Rightarrow> nat" where
  "cloneSize s i = length (i # subtree s i)"




text \<open>
  While an initializer is filled it is the last operation of the module body
  (\<open>lastInit\<close>: every operation after it is nested in it). \<open>bodyKinds\<close> are the kinds
  its body can hold before the stores: loads of globals of the map, and copies of operations
  of the module. \<open>building\<close> relates the module when the initializer was created to the
  module while it is filled; \<open>storeSpec\<close>, \<open>clonedInto\<close> and \<open>hoistedFresh\<close>
  describe the module after the loop over the results of the root, after
  \<open>cloneConstExprInto\<close>, and after \<open>hoistConstExpr\<close> on a value that had no
  global: \<open>n2\<close> is the handle of the first global.
\<close>

definition lastInit :: "module_state \<Rightarrow> op_id \<Rightarrow> bool" where
  "lastInit s i = (i \<in> set (opOrder s) \<and>
     (\<forall>x \<in> set (tl (dropWhile (\<lambda>x. x \<noteq> i) (opOrder s))). deeper s i x))"

definition bodyKinds :: "hoisted_map \<Rightarrow> module_state \<Rightarrow> op_kind set" where
  "bodyKinds hm s0 = {GlobalLoadOp g | g. g \<in> ran hm} \<union> range (\<lambda>y. kind (opsOf s0 y))"

definition building :: "hoisted_map \<Rightarrow> module_state \<Rightarrow> op_id \<Rightarrow> module_state \<Rightarrow> bool" where
  "building hm s0 i s =
     (wfState s \<and> lastInit s i \<and> i < next_id s0 \<and> next_id s0 \<le> next_id s \<and>
      (\<forall>x. x < next_id s0 \<longrightarrow> opsOf s x = opsOf s0 x) \<and>
      opOrder s = opOrder s0 @ [next_id s0..<next_id s] \<and>
      (\<forall>x. next_id s0 \<le> x \<and> x < next_id s \<longrightarrow> depth (opsOf s0 i) < depth (opsOf s x)) \<and>
      (\<forall>y. kind (opsOf s y) \<in> bodyKinds hm s0))"

definition storeSpec ::
  "op_id \<Rightarrow> op_id \<Rightarrow> clone_map \<Rightarrow> op_id \<Rightarrow> nat \<Rightarrow> ty list \<Rightarrow> op_id list \<Rightarrow> op_id list \<Rightarrow>
   hoisted_map \<Rightarrow> module_state \<Rightarrow> hoisted_map \<Rightarrow> module_state \<Rightarrow> bool" where
  "storeSpec f i cm r j0 tys G rest hm s hm' s' =
     (next_id s' = next_id s + 2 * length tys \<and>
      opOrder s' = G @ map (\<lambda>p. next_id s + 2 * p) [0..<length tys] @ f # rest
                     @ map (\<lambda>p. Suc (next_id s + 2 * p)) [0..<length tys] \<and>
      (\<forall>x. x < next_id s \<longrightarrow> opsOf s' x = opsOf s x) \<and>
      (\<forall>x. next_id s + 2 * length tys \<le> x \<longrightarrow> opsOf s' x = opsOf s x) \<and>
      (\<forall>p. p < length tys \<longrightarrow>
         opsOf s' (next_id s + 2 * p) =
           \<lparr>kind = GlobalOp ''hoisted'' False (tys ! p) Private, operands = [], results = [],
              depth = depth (opsOf s f)\<rparr> \<and>
         opsOf s' (Suc (next_id s + 2 * p)) =
           \<lparr>kind = GlobalStoreOp (next_id s + 2 * p),
              operands = [lookupOrDefault cm (OpResult r (j0 + p))], results = [],
              depth = Suc (depth (opsOf s i))\<rparr>) \<and>
      (\<forall>a q. hm' (OpResult a q) =
         (if a = r \<and> j0 \<le> q \<and> q < j0 + length tys then Some (next_id s + 2 * (q - j0))
          else hm (OpResult a q))) \<and>
      (\<forall>a q. hm' (BlockArg a q) = hm (BlockArg a q)) \<and>
      wfState s' \<and> lastInit s' i)"

definition clonedInto ::
  "op_id \<Rightarrow> op_id \<Rightarrow> hoisted_map \<Rightarrow> module_state \<Rightarrow> op_id \<Rightarrow> hoisted_map \<Rightarrow> module_state \<Rightarrow> bool" where
  "clonedInto i r hm s0 n2 hm' s4 =
     (next_id s0 < n2 \<and>
      next_id s4 = Suc (n2 + 2 * numResults s0 r) \<and>
      opOrder s4 = map (\<lambda>p. n2 + 2 * p) [0..<numResults s0 r] @ opOrder s0 @ [next_id s0..<n2]
                     @ map (\<lambda>p. Suc (n2 + 2 * p)) [0..<numResults s0 r] @ [n2 + 2 * numResults s0 r] \<and>
      (\<forall>x. x < next_id s0 \<longrightarrow> opsOf s4 x = opsOf s0 x) \<and>
      (\<forall>x. next_id s0 \<le> x \<and> x < n2 \<longrightarrow>
           depth (opsOf s0 i) < depth (opsOf s4 x) \<and> kind (opsOf s4 x) \<in> bodyKinds hm s0) \<and>
      (\<forall>p. p < numResults s0 r \<longrightarrow>
         opsOf s4 (n2 + 2 * p) =
           \<lparr>kind = GlobalOp ''hoisted'' False (results (opsOf s0 r) ! p) Private, operands = [],
              results = [], depth = depth (opsOf s0 (hd (opOrder s0)))\<rparr> \<and>
         kind (opsOf s4 (Suc (n2 + 2 * p))) = GlobalStoreOp (n2 + 2 * p) \<and>
         depth (opsOf s4 (Suc (n2 + 2 * p))) = Suc (depth (opsOf s0 i))) \<and>
      opsOf s4 (n2 + 2 * numResults s0 r) =
         \<lparr>kind = InitializerReturnOp, operands = [], results = [], depth = Suc (depth (opsOf s0 i))\<rparr> \<and>
      (\<forall>a q. hm' (OpResult a q) =
         (if a = r \<and> q < numResults s0 r then Some (n2 + 2 * q) else hm (OpResult a q))) \<and>
      (\<forall>a q. hm' (BlockArg a q) = hm (BlockArg a q)) \<and>
      wfState s4 \<and> lastInit s4 i)"

definition hoistedFresh ::
  "op_operand \<Rightarrow> op_id \<Rightarrow> nat \<Rightarrow> hoisted_map \<Rightarrow> module_state \<Rightarrow> op_id \<Rightarrow> hoisted_map \<Rightarrow> module_state \<Rightarrow> bool" where
  "hoistedFresh u r j hm s n2 hm' s' =
     (Suc (next_id s) < n2 \<and>
      next_id s' = Suc (Suc (n2 + 2 * numResults s r)) \<and>
      opOrder s' = map (\<lambda>p. n2 + 2 * p) [0..<numResults s r]
                     @ insertBefore (fst u) [Suc (n2 + 2 * numResults s r)] (opOrder s)
                     @ next_id s # [Suc (next_id s)..<n2]
                     @ map (\<lambda>p. Suc (n2 + 2 * p)) [0..<numResults s r] @ [n2 + 2 * numResults s r] \<and>
      (\<forall>x. x < next_id s \<and> x \<noteq> fst u \<longrightarrow> opsOf s' x = opsOf s x) \<and>
      opsOf s' (fst u) = (opsOf s (fst u))
         \<lparr>operands := (operands (opsOf s (fst u)))[snd u := OpResult (Suc (n2 + 2 * numResults s r)) 0]\<rparr> \<and>
      opsOf s' (next_id s) = \<lparr>kind = InitializerOp, operands = [], results = [], depth = 0\<rparr> \<and>
      (\<forall>x. Suc (next_id s) \<le> x \<and> x < n2 \<longrightarrow>
           0 < depth (opsOf s' x) \<and> kind (opsOf s' x) \<in> insert InitializerOp (bodyKinds hm s)) \<and>
      (\<forall>p. p < numResults s r \<longrightarrow>
         opsOf s' (n2 + 2 * p) =
           \<lparr>kind = GlobalOp ''hoisted'' False (results (opsOf s r) ! p) Private, operands = [],
              results = [], depth = depth (opsOf s (hd (opOrder s)))\<rparr> \<and>
         kind (opsOf s' (Suc (n2 + 2 * p))) = GlobalStoreOp (n2 + 2 * p) \<and>
         depth (opsOf s' (Suc (n2 + 2 * p))) = Suc 0) \<and>
      opsOf s' (n2 + 2 * numResults s r) =
         \<lparr>kind = InitializerReturnOp, operands = [], results = [], depth = Suc 0\<rparr> \<and>
      opsOf s' (Suc (n2 + 2 * numResults s r)) =
         \<lparr>kind = GlobalLoadOp (n2 + 2 * j), operands = [], results = [results (opsOf s r) ! j],
            depth = depth (opsOf s (fst u))\<rparr> \<and>
      (\<forall>a q. hm' (OpResult a q) =
         (if a = r \<and> q < numResults s r then Some (n2 + 2 * q) else hm (OpResult a q))) \<and>
      (\<forall>a q. hm' (BlockArg a q) = hm (BlockArg a q)) \<and>
      wfState s')"

text \<open>The module after \<open>hoistConstExpr\<close> on a value that has the global \<open>g\<close>.\<close>

definition hoistedReuse :: "op_operand \<Rightarrow> op_id \<Rightarrow> module_state \<Rightarrow> module_state \<Rightarrow> bool" where
  "hoistedReuse u g s s' =
     (next_id s' = Suc (next_id s) \<and>
      opOrder s' = insertBefore (fst u) [next_id s] (opOrder s) \<and>
      (\<forall>x. x \<noteq> next_id s \<and> x \<noteq> fst u \<longrightarrow> opsOf s' x = opsOf s x) \<and>
      opsOf s' (fst u) = (opsOf s (fst u))
         \<lparr>operands := (operands (opsOf s (fst u)))[snd u := OpResult (next_id s) 0]\<rparr> \<and>
      opsOf s' (next_id s) = \<lparr>kind = GlobalLoadOp g, operands = [], results = globalTypes s g,
            depth = depth (opsOf s (fst u))\<rparr> \<and>
      wfState s')"



section \<open>Invariants of the walk\<close>

text \<open>
  \<open>memoInv\<close>: the map holds globals for all results of an existing operation or for none
  of them, and for nothing else. \<open>moduleInitializers\<close> and \<open>moduleGlobals\<close> are the
  initializers and globals of the module body; \<open>headAtTop\<close> says that the first operation
  of the module is an operation of the module body. \<open>isEscape\<close> is the test of lines 94
  to 104. \<open>hoisted\<close> describes one call of \<open>hoistConstExpr\<close>, \<open>usesDone\<close> the loop
  over a snapshot of uses, and \<open>rewrote env V\<close> the module after the results selected by
  \<open>V\<close> were processed: an operand that held such a result and is an escape holds the
  result of a new load of the global of the value, every other operand holds what it held.
\<close>

definition memoInv :: "module_state \<Rightarrow> hoisted_map \<Rightarrow> bool" where
  "memoInv s hm =
     ((\<forall>a q. hm (BlockArg a q) = None) \<and>
      (\<forall>r. (\<forall>q. hm (OpResult r q) = None) \<or>
           (r < next_id s \<and> (\<forall>q. (hm (OpResult r q) \<noteq> None) = (q < numResults s r)))))"

definition isGlobalKind :: "op_kind \<Rightarrow> bool" where
  "isGlobalKind k = (case k of GlobalOp _ _ _ _ \<Rightarrow> True | _ \<Rightarrow> False)"

definition moduleInitializers :: "module_state \<Rightarrow> op_id list" where
  "moduleInitializers s =
     filter (\<lambda>x. kind (opsOf s x) = InitializerOp \<and> depth (opsOf s x) = 0) (opOrder s)"

definition moduleGlobals :: "module_state \<Rightarrow> op_id list" where
  "moduleGlobals s =
     filter (\<lambda>x. isGlobalKind (kind (opsOf s x)) \<and> depth (opsOf s x) = 0) (opOrder s)"

definition headAtTop :: "module_state \<Rightarrow> bool" where
  "headAtTop s = (case opOrder s of [] \<Rightarrow> True | f # _ \<Rightarrow> depth (opsOf s f) = 0)"

definition hoisted ::
  "op_operand \<Rightarrow> op_id \<Rightarrow> nat \<Rightarrow> module_state \<times> hoisted_map \<Rightarrow> module_state \<times> hoisted_map \<Rightarrow>
   op_id \<Rightarrow> op_id \<Rightarrow> bool" where
  "hoisted u r j sh sh' l g =
     (wfState (fst sh') \<and> memoInv (fst sh') (snd sh') \<and>
      next_id (fst sh) \<le> l \<and> next_id (fst sh') = Suc l \<and>
      set (opOrder (fst sh)) \<subseteq> set (opOrder (fst sh')) \<and>
      (\<forall>x. x < next_id (fst sh) \<and> x \<noteq> fst u \<longrightarrow> opsOf (fst sh') x = opsOf (fst sh) x) \<and>
      opsOf (fst sh') (fst u) = (opsOf (fst sh) (fst u))
         \<lparr>operands := (operands (opsOf (fst sh) (fst u)))[snd u := OpResult l 0]\<rparr> \<and>
      kind (opsOf (fst sh') l) = GlobalLoadOp g \<and> snd sh' (OpResult r j) = Some g \<and>
      (\<forall>v' g'. snd sh v' = Some g' \<longrightarrow> snd sh' v' = Some g') \<and>
      (headAtTop (fst sh) \<longrightarrow> headAtTop (fst sh') \<and>
         (if snd sh (OpResult r j) = None
          then length (moduleInitializers (fst sh')) = Suc (length (moduleInitializers (fst sh))) \<and>
               length (moduleGlobals (fst sh')) = length (moduleGlobals (fst sh)) + numResults (fst sh) r
          else snd sh' = snd sh \<and>
               moduleInitializers (fst sh') = moduleInitializers (fst sh) \<and>
               moduleGlobals (fst sh') = moduleGlobals (fst sh))))"

definition isEscape :: "analysis \<Rightarrow> op_operand \<Rightarrow> bool" where
  "isEscape env u = (\<not> isConstExprLeaf env (fst u) \<and> isHoistableConstExprConsumingOperand env u)"

definition sameShape :: "module_state \<Rightarrow> module_state \<Rightarrow> bool" where
  "sameShape s s' =
     (next_id s \<le> next_id s' \<and> set (opOrder s) \<subseteq> set (opOrder s') \<and>
      (\<forall>x. x < next_id s \<longrightarrow>
         kind (opsOf s' x) = kind (opsOf s x) \<and> results (opsOf s' x) = results (opsOf s x) \<and>
         depth (opsOf s' x) = depth (opsOf s x) \<and>
         length (operands (opsOf s' x)) = length (operands (opsOf s x))))"

definition keeps :: "op_operand set \<Rightarrow> module_state \<Rightarrow> module_state \<Rightarrow> bool" where
  "keeps U s s' =
     (\<forall>x k. x < next_id s \<and> (x, k) \<notin> U \<longrightarrow> operands (opsOf s' x) ! k = operands (opsOf s x) ! k)"

definition usesDone ::
  "analysis \<Rightarrow> op_operand list \<Rightarrow> op_id \<Rightarrow> nat \<Rightarrow> module_state \<times> hoisted_map \<Rightarrow>
   module_state \<times> hoisted_map \<Rightarrow> bool" where
  "usesDone env us r j sh sh' =
     (wfState (fst sh') \<and> memoInv (fst sh') (snd sh') \<and> sameShape (fst sh) (fst sh') \<and>
      keeps (set (filter (isEscape env) us)) (fst sh) (fst sh') \<and>
      (\<forall>v g. snd sh v = Some g \<longrightarrow> snd sh' v = Some g) \<and>
      (filter (isEscape env) us = [] \<longrightarrow> sh' = sh) \<and>
      (filter (isEscape env) us \<noteq> [] \<longrightarrow>
         (\<exists>g. snd sh' (OpResult r j) = Some g \<and>
              (\<forall>u \<in> set (filter (isEscape env) us). \<exists>l. next_id (fst sh) \<le> l \<and> l < next_id (fst sh') \<and>
                  operandGet (fst sh') u = OpResult l 0 \<and> kind (opsOf (fst sh') l) = GlobalLoadOp g))) \<and>
      inj_on (operandGet (fst sh')) (set (filter (isEscape env) us)) \<and>
      (headAtTop (fst sh) \<longrightarrow> headAtTop (fst sh') \<and>
         length (moduleInitializers (fst sh')) = length (moduleInitializers (fst sh)) +
            (if filter (isEscape env) us \<noteq> [] \<and> snd sh (OpResult r j) = None then 1 else 0) \<and>
         length (moduleGlobals (fst sh')) = length (moduleGlobals (fst sh)) +
            (if filter (isEscape env) us \<noteq> [] \<and> snd sh (OpResult r j) = None
             then numResults (fst sh) r else 0)))"

definition rewrote ::
  "analysis \<Rightarrow> (op_id \<Rightarrow> nat \<Rightarrow> bool) \<Rightarrow> module_state \<times> hoisted_map \<Rightarrow>
   module_state \<times> hoisted_map \<Rightarrow> bool" where
  "rewrote env V sh sh' =
     (wfState (fst sh') \<and> memoInv (fst sh') (snd sh') \<and> sameShape (fst sh) (fst sh') \<and>
      (\<forall>v g. snd sh v = Some g \<longrightarrow> snd sh' v = Some g) \<and>
      (\<forall>x k. x \<in> set (opOrder (fst sh)) \<and> k < length (operands (opsOf (fst sh) x)) \<longrightarrow>
         (case operands (opsOf (fst sh) x) ! k of
            OpResult a q \<Rightarrow>
              if V a q \<and> isEscape env (x, k)
              then \<exists>l g. next_id (fst sh) \<le> l \<and> l < next_id (fst sh') \<and>
                     operands (opsOf (fst sh') x) ! k = OpResult l 0 \<and>
                     kind (opsOf (fst sh') l) = GlobalLoadOp g \<and> snd sh' (OpResult a q) = Some g
              else operands (opsOf (fst sh') x) ! k = OpResult a q
          | BlockArg a q \<Rightarrow> operands (opsOf (fst sh') x) ! k = BlockArg a q)))"



section \<open>Where globals and loads are\<close>








section \<open>Example modules\<close>

definition mkOp :: "op_kind \<Rightarrow> val list \<Rightarrow> ty list \<Rightarrow> nat \<Rightarrow> operation" where
  "mkOp k a t d = \<lparr>kind = k, operands = a, results = t, depth = d\<rparr>"

text \<open>A function with a constant that nothing uses, and the same function returning it.\<close>

definition progDead :: module_state where
  "progDead = \<lparr>opsOf = (\<lambda>i. mkOp (OtherOp ''none'') [] [] 0)
      (0 := mkOp (OtherOp ''func'') [] [] 0,
       1 := mkOp (OtherOp ''const'') [] [7] 1,
       2 := mkOp (OtherOp ''return'') [] [] 1),
     opOrder = [0, 1, 2], next_id = 3\<rparr>"

definition progLive :: module_state where
  "progLive = \<lparr>opsOf = (\<lambda>i. mkOp (OtherOp ''none'') [] [] 0)
      (0 := mkOp (OtherOp ''func'') [] [] 0,
       1 := mkOp (OtherOp ''const'') [] [7] 1,
       2 := mkOp (OtherOp ''return'') [OpResult 1 0] [] 1),
     opOrder = [0, 1, 2], next_id = 3\<rparr>"

text \<open>An analysis for both: the constant is a root, so that nothing is hoistable.\<close>

definition envDead :: analysis where
  "envDead = \<lparr>lookup = (\<lambda>i. if i = 1 then Some \<lparr>constOp = 1, isRoot = True, isConstExpr = True\<rparr>
                           else None),
     isHoistableConstExprLeaf = (\<lambda>_. True),
     isHoistableConstExprConsumingOperand = (\<lambda>_. True),
     constExprOperations = [1],
     getBackwardSlice = (\<lambda>s r. [])\<rparr>"



text \<open>
  MLIR's \<open>getBackwardSlice\<close> for the examples: the operations that define the operands
  of the root, and theirs, each after the operations it depends on, without the root. The
  search is cut at as many steps as the module has operations.
\<close>

fun sliceImpl :: "nat \<Rightarrow> module_state \<Rightarrow> op_id \<Rightarrow> op_id list \<Rightarrow> op_id list" where
  "sliceImpl 0 s i acc = acc"
| "sliceImpl (Suc n) s i acc =
     (let acc' = fold (\<lambda>v a. case v of
                               OpResult d _ \<Rightarrow> if d \<in> set a then a else sliceImpl n s d a
                             | BlockArg _ _ \<Rightarrow> a)
                      (operands (opsOf s i)) acc
      in if i \<in> set acc' then acc' else acc' @ [i])"

definition backwardSlice :: "module_state \<Rightarrow> op_id \<Rightarrow> op_id list" where
  "backwardSlice s r = removeAll r (sliceImpl (length (opOrder s)) s r [])"

text \<open>Scenario B of the specification: \<open>c = a + b\<close> is used by two runtime operations.\<close>

definition progA :: module_state where
  "progA = \<lparr>opsOf = (\<lambda>i. mkOp (OtherOp ''none'') [] [] 0)
      (0 := mkOp (OtherOp ''func'') [] [] 0,
       1 := mkOp (OtherOp ''const'') [] [7] 1,
       2 := mkOp (OtherOp ''const'') [] [7] 1,
       3 := mkOp (OtherOp ''add'') [OpResult 1 0, OpResult 2 0] [7] 1,
       4 := mkOp (OtherOp ''mul'') [OpResult 3 0, BlockArg 0 0] [7] 1,
       5 := mkOp (OtherOp ''mul'') [BlockArg 0 0, OpResult 3 0] [7] 1,
       6 := mkOp (OtherOp ''return'') [OpResult 4 0, OpResult 5 0] [] 1),
     opOrder = [0, 1, 2, 3, 4, 5, 6], next_id = 7\<rparr>"

definition envA :: analysis where
  "envA = \<lparr>lookup = (\<lambda>i. if i = 1 \<or> i = 2 then Some \<lparr>constOp = i, isRoot = True, isConstExpr = True\<rparr>
                        else if i = 3 then Some \<lparr>constOp = i, isRoot = False, isConstExpr = True\<rparr>
                        else None),
     isHoistableConstExprLeaf = (\<lambda>_. True),
     isHoistableConstExprConsumingOperand = (\<lambda>_. True),
     constExprOperations = [1, 2, 3],
     getBackwardSlice = backwardSlice\<rparr>"


text \<open>
  A module with a global and an initializer of its own. The initializer computes \<open>c + c\<close>
  from a constant and hands it to a runtime operation, whose result it stores.
\<close>

definition progInit :: module_state where
  "progInit = \<lparr>opsOf = (\<lambda>i. mkOp (OtherOp ''none'') [] [] 0)
      (0 := mkOp (GlobalOp ''x'' True 7 Private) [] [] 0,
       1 := mkOp InitializerOp [] [] 0,
       2 := mkOp (OtherOp ''const'') [] [7] 1,
       3 := mkOp (OtherOp ''add'') [OpResult 2 0, OpResult 2 0] [7] 1,
       4 := mkOp (OtherOp ''runtime'') [OpResult 3 0] [7] 1,
       5 := mkOp (GlobalStoreOp 0) [OpResult 4 0] [] 1,
       6 := mkOp InitializerReturnOp [] [] 1),
     opOrder = [0, 1, 2, 3, 4, 5, 6], next_id = 7\<rparr>"

definition envInit :: analysis where
  "envInit = \<lparr>lookup = (\<lambda>i. if i = 2 then Some \<lparr>constOp = i, isRoot = True, isConstExpr = True\<rparr>
                        else if i = 3 then Some \<lparr>constOp = i, isRoot = False, isConstExpr = True\<rparr>
                        else None),
     isHoistableConstExprLeaf = (\<lambda>_. True),
     isHoistableConstExprConsumingOperand = (\<lambda>_. True),
     constExprOperations = [2, 3],
     getBackwardSlice = backwardSlice\<rparr>"



section \<open>Insertion, creation and cloning\<close>

lemma placeAt_split: "\<exists>xs ys. opOrder s = xs @ ys \<and> placeAt ip new s = xs @ new @ ys"
proof (cases ip)
  case (BeforeOp t)
  have "takeWhile (\<lambda>x. x \<noteq> t) (opOrder s) @ dropWhile (\<lambda>x. x \<noteq> t) (opOrder s) = opOrder s"
    by simp
  then have "opOrder s = takeWhile (\<lambda>x. x \<noteq> t) (opOrder s) @ dropWhile (\<lambda>x. x \<noteq> t) (opOrder s)
      \<and> placeAt ip new s = takeWhile (\<lambda>x. x \<noteq> t) (opOrder s) @ new @ dropWhile (\<lambda>x. x \<noteq> t) (opOrder s)"
    using BeforeOp by (simp add: insertBefore_def)
  then show ?thesis by blast
next
  case (AtBlockEnd b)
  show ?thesis
  proof (cases b)
    case None
    with AtBlockEnd have "opOrder s = opOrder s @ [] \<and> placeAt ip new s = opOrder s @ new @ []" by simp
    then show ?thesis by blast
  next
    case (Some i)
    show ?thesis
    proof (cases "dropWhile (\<lambda>x. x \<noteq> i) (opOrder s)")
      case Nil
      have "opOrder s = opOrder s @ [] \<and> placeAt ip new s = opOrder s @ new @ []"
        unfolding AtBlockEnd Some by (simp add: insertAtEndOf_def Nil)
      then show ?thesis by blast
    next
      case (Cons h after)
      have "takeWhile (\<lambda>x. x \<noteq> i) (opOrder s) @ dropWhile (\<lambda>x. x \<noteq> i) (opOrder s) = opOrder s"
        by simp
      with Cons have "takeWhile (\<lambda>x. x \<noteq> i) (opOrder s) @ h # after = opOrder s" by simp
      moreover have "takeWhile (deeper s i) after @ dropWhile (deeper s i) after = after" by simp
      ultimately have "(takeWhile (\<lambda>x. x \<noteq> i) (opOrder s) @ h # takeWhile (deeper s i) after)
           @ dropWhile (deeper s i) after = opOrder s" by simp
      then have a: "opOrder s = (takeWhile (\<lambda>x. x \<noteq> i) (opOrder s) @ h # takeWhile (deeper s i) after)
           @ dropWhile (deeper s i) after" by (rule sym)
      have b: "placeAt ip new s = (takeWhile (\<lambda>x. x \<noteq> i) (opOrder s) @ h # takeWhile (deeper s i) after)
           @ new @ dropWhile (deeper s i) after"
        using AtBlockEnd Some Cons by (simp add: insertAtEndOf_def)
      from a b show ?thesis by blast
    qed
  qed
qed

lemma set_placeAt: "set (placeAt ip new s) = set (opOrder s) \<union> set new"
proof -
  obtain xs ys where "opOrder s = xs @ ys" "placeAt ip new s = xs @ new @ ys"
    using placeAt_split by blast
  then show ?thesis by auto
qed

lemma filter_placeAt:
  "\<forall>x \<in> set new. \<not> P x \<Longrightarrow> filter P (placeAt ip new s) = filter P (opOrder s)"
proof -
  assume a: "\<forall>x \<in> set new. \<not> P x"
  then have e: "filter P new = []" by (simp add: filter_empty_conv)
  obtain xs ys where "opOrder s = xs @ ys" "placeAt ip new s = xs @ new @ ys"
    using placeAt_split by blast
  with e show ?thesis by simp
qed

lemma distinct_placeAt:
  "distinct (opOrder s) \<Longrightarrow> distinct new \<Longrightarrow> set new \<inter> set (opOrder s) = {} \<Longrightarrow>
   distinct (placeAt ip new s)"
proof -
  assume a: "distinct (opOrder s)" "distinct new" "set new \<inter> set (opOrder s) = {}"
  obtain xs ys where "opOrder s = xs @ ys" "placeAt ip new s = xs @ new @ ys"
    using placeAt_split by blast
  with a show ?thesis by auto
qed

lemma frame_refl: "frame s s"
  by (simp add: frame_def)

lemma frame_trans: "frame s s' \<Longrightarrow> frame s' s'' \<Longrightarrow> frame s s''"
proof -
  assume a: "frame s s'" and b: "frame s' s''"
  have le: "next_id s \<le> next_id s'" "next_id s' \<le> next_id s''" using a b by (auto simp: frame_def)
  have "filter (\<lambda>i. i < next_id s) (opOrder s'') =
        filter (\<lambda>i. i < next_id s) (filter (\<lambda>i. i < next_id s') (opOrder s''))"
    using le by (auto intro: filter_cong)
  also have "\<dots> = filter (\<lambda>i. i < next_id s) (filter (\<lambda>i. i < next_id s') (opOrder s'))"
    using b by (simp add: frame_def)
  also have "\<dots> = filter (\<lambda>i. i < next_id s) (opOrder s')"
    using le by (auto intro: filter_cong)
  finally have f: "filter (\<lambda>i. i < next_id s) (opOrder s'') = filter (\<lambda>i. i < next_id s) (opOrder s)"
    using a by (simp add: frame_def)
  have s1: "set (opOrder s') \<subseteq> set (opOrder s) \<union> {next_id s..<next_id s'}"
    using a by (simp add: frame_def)
  have s2: "set (opOrder s'') \<subseteq> set (opOrder s') \<union> {next_id s'..<next_id s''}"
    using b by (simp add: frame_def)
  have "{next_id s..<next_id s'} \<union> {next_id s'..<next_id s''} \<subseteq> {next_id s..<next_id s''}"
    using le by auto
  with s1 s2 have g: "set (opOrder s'') \<subseteq> set (opOrder s) \<union> {next_id s..<next_id s''}" by blast
  have o: "\<forall>i. i < next_id s \<longrightarrow> opsOf s'' i = opsOf s i"
    using a b le by (simp add: frame_def)
  from f g o le show ?thesis unfolding frame_def by simp
qed

lemma frame_create: "frame s (snd (create ip k args tys s))"
  by (auto simp: frame_def create_def set_placeAt filter_placeAt)

lemma wfState_create: "wfState s \<Longrightarrow> wfState (snd (create ip k args tys s))"
  unfolding wfState_def create_def
  by (auto simp: set_placeAt intro!: distinct_placeAt)

lemma frame_mem: "frame s s' \<Longrightarrow> wfState s \<Longrightarrow> i \<in> set (opOrder s) \<Longrightarrow> i \<in> set (opOrder s')"
proof -
  assume a: "frame s s'" "wfState s" "i \<in> set (opOrder s)"
  then have "i \<in> set (filter (\<lambda>i. i < next_id s) (opOrder s))" by (auto simp: wfState_def)
  with a(1) have "i \<in> set (filter (\<lambda>i. i < next_id s) (opOrder s'))" by (simp add: frame_def)
  then show ?thesis by simp
qed

lemma cloneRun_props:
  "cloneRun src d0 dsrc js (cm, os, n) = (ids, cm', os', n') \<Longrightarrow>
   ids = [n..<n + length js] \<and> n' = n + length js \<and> (\<forall>i. i < n \<longrightarrow> os' i = os i)"
proof (induction js arbitrary: cm os n ids cm' os' n')
  case Nil
  then show ?case by simp
next
  case (Cons j js)
  obtain ids1 cm1 os1 n1 where r: "cloneRun src d0 dsrc js
       (mapResults cm j (length (results (src j))) n,
        os(n := \<lparr>kind = kind (src j), operands = map (lookupOrDefault cm) (operands (src j)),
               results = results (src j), depth = d0 + (depth (src j) - dsrc)\<rparr>), Suc n) = (ids1, cm1, os1, n1)"
    by (metis prod_cases4)
  with Cons.prems have e: "ids = n # ids1" "cm' = cm1" "os' = os1" "n' = n1"
    by (simp_all add: Let_def)
  from Cons.IH[OF r] have ih: "ids1 = [Suc n..<Suc n + length js]" "n1 = Suc n + length js"
    "\<forall>i. i < Suc n \<longrightarrow> os1 i = (os(n := \<lparr>kind = kind (src j), operands = map (lookupOrDefault cm) (operands (src j)),
               results = results (src j), depth = d0 + (depth (src j) - dsrc)\<rparr>)) i" by auto
  have "[n..<n + length (j # js)] = n # [Suc n..<Suc n + length js]"
    by (subst upt_rec) simp
  with ih e show ?case by simp
qed

lemma cloneOp_unfold:
  "\<exists>cm' os'. cloneOp ip i (cm, s) =
     (next_id s, cm', \<lparr>opsOf = os', opOrder = placeAt ip [next_id s..<next_id s + cloneSize s i] s,
        next_id = next_id s + cloneSize s i\<rparr>) \<and> (\<forall>j. j < next_id s \<longrightarrow> os' j = opsOf s j)"
proof -
  obtain ids cm' os' n' where r: "cloneRun (opsOf s) (depthAt s ip) (depth (opsOf s i)) (i # subtree s i)
              (cm, opsOf s, next_id s) = (ids, cm', os', n')" by (metis prod_cases4)
  from cloneRun_props[OF r] have "ids = [next_id s..<next_id s + cloneSize s i]"
    "n' = next_id s + cloneSize s i" "\<forall>j. j < next_id s \<longrightarrow> os' j = opsOf s j"
    unfolding cloneSize_def by blast+
  with r show ?thesis by (simp add: cloneOp_def)
qed

lemma frame_cloneOp: "frame s (snd (snd (cloneOp ip i (cm, s))))"
proof -
  obtain cm' os' where r: "cloneOp ip i (cm, s) =
     (next_id s, cm', \<lparr>opsOf = os', opOrder = placeAt ip [next_id s..<next_id s + cloneSize s i] s,
        next_id = next_id s + cloneSize s i\<rparr>)" and o: "\<forall>j. j < next_id s \<longrightarrow> os' j = opsOf s j"
    using cloneOp_unfold by blast
  have "filter (\<lambda>i. i < next_id s) (placeAt ip [next_id s..<next_id s + cloneSize s i] s)
      = filter (\<lambda>i. i < next_id s) (opOrder s)"
    by (rule filter_placeAt) simp
  with r o show ?thesis
    by (simp add: frame_def set_placeAt)
qed

lemma wfState_cloneOp: "wfState s \<Longrightarrow> wfState (snd (snd (cloneOp ip i (cm, s))))"
proof -
  assume w: "wfState s"
  obtain cm' os' where r: "cloneOp ip i (cm, s) =
     (next_id s, cm', \<lparr>opsOf = os', opOrder = placeAt ip [next_id s..<next_id s + cloneSize s i] s,
        next_id = next_id s + cloneSize s i\<rparr>)"
    using cloneOp_unfold by blast
  have "distinct (placeAt ip [next_id s..<next_id s + cloneSize s i] s)"
    using w by (intro distinct_placeAt) (auto simp: wfState_def)
  with r w show ?thesis
    by (auto simp: wfState_def set_placeAt)
qed

section \<open>Filling an initializer\<close>

lemma set_tl_dropWhile: "set (tl (dropWhile P xs)) \<subseteq> set xs"
proof (cases "dropWhile P xs")
  case Nil
  show ?thesis unfolding Nil by simp
next
  case (Cons h t)
  have "set (dropWhile P xs) \<subseteq> set xs" by (auto dest: set_dropWhileD)
  with Cons show ?thesis by auto
qed

lemma placeAt_end_last:
  assumes "lastInit s i"
  shows "placeAt (AtBlockEnd (Some i)) new s = opOrder s @ new"
proof -
  from assms have "i \<in> set (opOrder s)" by (simp add: lastInit_def)
  then obtain after where d: "dropWhile (\<lambda>x. x \<noteq> i) (opOrder s) = i # after"
    by (metis (mono_tags, lifting) dropWhile_eq_Nil_conv hd_dropWhile list.collapse)
  with assms have dp: "\<forall>x \<in> set after. deeper s i x" by (simp add: lastInit_def)
  then have t: "takeWhile (deeper s i) after = after" "dropWhile (deeper s i) after = []"
    by simp_all
  have "takeWhile (\<lambda>x. x \<noteq> i) (opOrder s) @ dropWhile (\<lambda>x. x \<noteq> i) (opOrder s) = opOrder s"
    by simp
  with d have "takeWhile (\<lambda>x. x \<noteq> i) (opOrder s) @ i # after = opOrder s" by simp
  then show ?thesis by (simp add: insertAtEndOf_def d t)
qed

lemma subtree_last: "lastInit s i \<Longrightarrow> subtree s i = tl (dropWhile (\<lambda>x. x \<noteq> i) (opOrder s))"
  by (simp add: lastInit_def subtree_def)

lemma lastInit_append:
  assumes "lastInit s i" and "opOrder s' = opOrder s @ new"
    and "\<forall>x \<in> set (opOrder s). deeper s' i x = deeper s i x"
    and "\<forall>x \<in> set new. deeper s' i x"
  shows "lastInit s' i"
proof -
  from assms(1) have iin: "i \<in> set (opOrder s)" by (simp add: lastInit_def)
  then have "dropWhile (\<lambda>x. x \<noteq> i) (opOrder s @ new) = dropWhile (\<lambda>x. x \<noteq> i) (opOrder s) @ new"
    by (simp add: dropWhile_append1)
  moreover from iin have "dropWhile (\<lambda>x. x \<noteq> i) (opOrder s) \<noteq> []" by simp
  ultimately have "tl (dropWhile (\<lambda>x. x \<noteq> i) (opOrder s')) = tl (dropWhile (\<lambda>x. x \<noteq> i) (opOrder s)) @ new"
    using assms(2) by simp
  moreover have "set (tl (dropWhile (\<lambda>x. x \<noteq> i) (opOrder s))) \<subseteq> set (opOrder s)"
    by (rule set_tl_dropWhile)
  ultimately show ?thesis using assms iin unfolding lastInit_def by auto
qed

lemma cloneRun_more:
  "cloneRun src d0 dsrc js (cm, os, n) = (ids, cm', os', n') \<Longrightarrow>
   (\<forall>x. n + length js \<le> x \<longrightarrow> os' x = os x) \<and>
   (\<forall>x. n \<le> x \<and> x < n + length js \<longrightarrow>
        d0 \<le> depth (os' x) \<and> kind (os' x) \<in> range (\<lambda>y. kind (src y))) \<and>
   (\<forall>a k. a \<notin> set js \<longrightarrow> cm' (OpResult a k) = cm (OpResult a k))"
proof (induction js arbitrary: cm os n ids cm' os' n')
  case Nil
  then show ?case by auto
next
  case (Cons j js)
  let ?c = "\<lparr>kind = kind (src j), operands = map (lookupOrDefault cm) (operands (src j)),
               results = results (src j), depth = d0 + (depth (src j) - dsrc)\<rparr>"
  obtain ids1 cm1 os1 n1 where r: "cloneRun src d0 dsrc js
       (mapResults cm j (length (results (src j))) n, os(n := ?c), Suc n) = (ids1, cm1, os1, n1)"
    by (metis prod_cases4)
  with Cons.prems have e: "ids = n # ids1" "cm' = cm1" "os' = os1" "n' = n1"
    by (simp_all add: Let_def)
  from Cons.IH[OF r] have ih1: "\<forall>x. Suc n + length js \<le> x \<longrightarrow> os1 x = (os(n := ?c)) x"
    and ih2: "\<forall>x. Suc n \<le> x \<and> x < Suc n + length js \<longrightarrow>
        d0 \<le> depth (os1 x) \<and> kind (os1 x) \<in> range (\<lambda>y. kind (src y))"
    and ih3: "\<forall>a k. a \<notin> set js \<longrightarrow> cm1 (OpResult a k) = mapResults cm j (length (results (src j))) n (OpResult a k)"
    by blast+
  from cloneRun_props[OF r] have old: "\<forall>x. x < Suc n \<longrightarrow> os1 x = (os(n := ?c)) x" by blast
  then have atn: "os1 n = ?c" by simp
  have a: "\<forall>x. n + length (j # js) \<le> x \<longrightarrow> os' x = os x" using ih1 e by simp
  have b: "\<forall>x. n \<le> x \<and> x < n + length (j # js) \<longrightarrow>
        d0 \<le> depth (os' x) \<and> kind (os' x) \<in> range (\<lambda>y. kind (src y))"
  proof (intro allI impI)
    fix x assume x: "n \<le> x \<and> x < n + length (j # js)"
    show "d0 \<le> depth (os' x) \<and> kind (os' x) \<in> range (\<lambda>y. kind (src y))"
    proof (cases "x = n")
      case True
      with atn e show ?thesis by simp
    next
      case False
      with x have "Suc n \<le> x \<and> x < Suc n + length js" by simp
      with ih2 e show ?thesis by blast
    qed
  qed
  have c: "\<forall>a k. a \<notin> set (j # js) \<longrightarrow> cm' (OpResult a k) = cm (OpResult a k)"
    using ih3 e by (simp add: mapResults_def)
  from a b c show ?case by blast
qed

lemma cloneRun_head:
  assumes "cloneRun src d0 dsrc (j # js) (cm, os, n) = (ids, cm', os', n')"
  shows "os' n = \<lparr>kind = kind (src j), operands = map (lookupOrDefault cm) (operands (src j)),
               results = results (src j), depth = d0 + (depth (src j) - dsrc)\<rparr> \<and>
         (j \<notin> set js \<longrightarrow> (\<forall>k. k < length (results (src j)) \<longrightarrow> cm' (OpResult j k) = Some (OpResult n k)))"
proof -
  let ?c = "\<lparr>kind = kind (src j), operands = map (lookupOrDefault cm) (operands (src j)),
               results = results (src j), depth = d0 + (depth (src j) - dsrc)\<rparr>"
  obtain ids1 cm1 os1 n1 where r: "cloneRun src d0 dsrc js
       (mapResults cm j (length (results (src j))) n, os(n := ?c), Suc n) = (ids1, cm1, os1, n1)"
    by (metis prod_cases4)
  with assms have e: "cm' = cm1" "os' = os1" by (simp_all add: Let_def)
  from cloneRun_props[OF r] have "os1 n = ?c" by simp
  moreover from cloneRun_more[OF r] have
    "\<forall>a k. a \<notin> set js \<longrightarrow> cm1 (OpResult a k) = mapResults cm j (length (results (src j))) n (OpResult a k)"
    by blast
  ultimately show ?thesis using e by (simp add: mapResults_def)
qed


lemma cloneOp_spec:
  "\<exists>cm' os'. cloneOp ip i (cm, s) =
     (next_id s, cm', \<lparr>opsOf = os', opOrder = placeAt ip [next_id s..<next_id s + cloneSize s i] s,
        next_id = next_id s + cloneSize s i\<rparr>) \<and>
     (\<forall>j. j < next_id s \<longrightarrow> os' j = opsOf s j) \<and>
     (\<forall>x. next_id s + cloneSize s i \<le> x \<longrightarrow> os' x = opsOf s x) \<and>
     (\<forall>x. next_id s \<le> x \<and> x < next_id s + cloneSize s i \<longrightarrow>
        depthAt s ip \<le> depth (os' x) \<and> kind (os' x) \<in> range (\<lambda>y. kind (opsOf s y))) \<and>
     os' (next_id s) = \<lparr>kind = kind (opsOf s i),
        operands = map (lookupOrDefault cm) (operands (opsOf s i)),
        results = results (opsOf s i), depth = depthAt s ip\<rparr> \<and>
     (i \<notin> set (subtree s i) \<longrightarrow>
        (\<forall>k. k < numResults s i \<longrightarrow> cm' (OpResult i k) = Some (OpResult (next_id s) k))) \<and>
     (\<forall>a k. a \<notin> set (i # subtree s i) \<longrightarrow> cm' (OpResult a k) = cm (OpResult a k))"
proof -
  obtain ids cm' os' n' where r: "cloneRun (opsOf s) (depthAt s ip) (depth (opsOf s i)) (i # subtree s i)
              (cm, opsOf s, next_id s) = (ids, cm', os', n')" by (metis prod_cases4)
  from cloneRun_props[OF r] have p: "ids = [next_id s..<next_id s + cloneSize s i]"
    "n' = next_id s + cloneSize s i" "\<forall>j. j < next_id s \<longrightarrow> os' j = opsOf s j"
    unfolding cloneSize_def by blast+
  from cloneRun_more[OF r] have m: "\<forall>x. next_id s + cloneSize s i \<le> x \<longrightarrow> os' x = opsOf s x"
    "\<forall>x. next_id s \<le> x \<and> x < next_id s + cloneSize s i \<longrightarrow>
        depthAt s ip \<le> depth (os' x) \<and> kind (os' x) \<in> range (\<lambda>y. kind (opsOf s y))"
    "\<forall>a k. a \<notin> set (i # subtree s i) \<longrightarrow> cm' (OpResult a k) = cm (OpResult a k)"
    unfolding cloneSize_def by blast+
  from cloneRun_head[OF r] have h: "os' (next_id s) = \<lparr>kind = kind (opsOf s i),
        operands = map (lookupOrDefault cm) (operands (opsOf s i)),
        results = results (opsOf s i), depth = depthAt s ip\<rparr>"
    "i \<notin> set (subtree s i) \<longrightarrow>
        (\<forall>k. k < numResults s i \<longrightarrow> cm' (OpResult i k) = Some (OpResult (next_id s) k))"
    by (simp_all add: numResults_def)
  have c: "cloneOp ip i (cm, s) =
     (next_id s, cm', \<lparr>opsOf = os', opOrder = placeAt ip [next_id s..<next_id s + cloneSize s i] s,
        next_id = next_id s + cloneSize s i\<rparr>)"
    using r p by (simp add: cloneOp_def)
  from c p(3) m h show ?thesis by blast
qed

lemma building_init:
  "wfState s0 \<Longrightarrow> lastInit s0 i \<Longrightarrow> i < next_id s0 \<Longrightarrow> building hm s0 i s0"
  by (simp add: building_def bodyKinds_def)

lemma building_step:
  assumes b: "building hm s0 i s"
    and n: "next_id s \<le> next_id s'"
    and o: "opOrder s' = placeAt (AtBlockEnd (Some i)) [next_id s..<next_id s'] s"
    and old: "\<forall>x. x < next_id s \<longrightarrow> opsOf s' x = opsOf s x"
    and new: "\<forall>x. next_id s \<le> x \<and> x < next_id s' \<longrightarrow>
          Suc (depth (opsOf s i)) \<le> depth (opsOf s' x) \<and> kind (opsOf s' x) \<in> bodyKinds hm s0"
    and rest: "\<forall>x. next_id s' \<le> x \<longrightarrow> opsOf s' x = opsOf s x"
  shows "building hm s0 i s'"
proof -
  from b have w: "wfState s" and l: "lastInit s i" and i0: "i < next_id s0"
    and n0: "next_id s0 \<le> next_id s" and o0: "\<forall>x. x < next_id s0 \<longrightarrow> opsOf s x = opsOf s0 x"
    and ord: "opOrder s = opOrder s0 @ [next_id s0..<next_id s]"
    and dp: "\<forall>x. next_id s0 \<le> x \<and> x < next_id s \<longrightarrow> depth (opsOf s0 i) < depth (opsOf s x)"
    and kd: "\<forall>y. kind (opsOf s y) \<in> bodyKinds hm s0"
    by (simp_all add: building_def)
  have ord': "opOrder s' = opOrder s @ [next_id s..<next_id s']"
    using o placeAt_end_last[OF l] by simp
  have isn: "i < next_id s" using i0 n0 by simp
  have di: "depth (opsOf s' i) = depth (opsOf s i)" using old isn by simp
  have di0: "depth (opsOf s i) = depth (opsOf s0 i)" using o0 i0 by simp
  have w': "wfState s'"
    using w n unfolding wfState_def ord' by auto
  have "\<forall>x \<in> set (opOrder s). deeper s' i x = deeper s i x"
    using w old di unfolding wfState_def deeper_def by auto
  moreover have "\<forall>x \<in> set [next_id s..<next_id s']. deeper s' i x"
    using new di unfolding deeper_def by auto
  ultimately have l': "lastInit s' i" using lastInit_append[OF l ord'] by blast
  have o0': "\<forall>x. x < next_id s0 \<longrightarrow> opsOf s' x = opsOf s0 x" using o0 old n0 by simp
  have "[next_id s0..<next_id s] @ [next_id s..<next_id s'] = [next_id s0..<next_id s']"
    using n0 n by (metis le_Suc_ex upt_add_eq_append)
  then have ord0: "opOrder s' = opOrder s0 @ [next_id s0..<next_id s']"
    using ord ord' by simp
  have dp': "\<forall>x. next_id s0 \<le> x \<and> x < next_id s' \<longrightarrow> depth (opsOf s0 i) < depth (opsOf s' x)"
  proof (intro allI impI)
    fix x assume x: "next_id s0 \<le> x \<and> x < next_id s'"
    show "depth (opsOf s0 i) < depth (opsOf s' x)"
    proof (cases "x < next_id s")
      case True
      with x dp old show ?thesis by simp
    next
      case False
      with x new di0 show ?thesis by (metis Suc_le_lessD not_less)
    qed
  qed
  have kd': "\<forall>y. kind (opsOf s' y) \<in> bodyKinds hm s0"
  proof
    fix y
    consider "y < next_id s" | "next_id s \<le> y \<and> y < next_id s'" | "next_id s' \<le> y" by linarith
    then show "kind (opsOf s' y) \<in> bodyKinds hm s0"
    proof cases
      case 1 with old kd show ?thesis by simp
    next
      case 2 with new show ?thesis by blast
    next
      case 3 with rest kd show ?thesis by simp
    qed
  qed
  from w' l' i0 n0 n o0' ord0 dp' kd' show ?thesis unfolding building_def by simp
qed

lemma building_create:
  assumes b: "building hm s0 i s" and k: "k \<in> bodyKinds hm s0"
  shows "building hm s0 i (snd (create (AtBlockEnd (Some i)) k args tys s))"
  using b
proof (rule building_step)
  show "next_id s \<le> next_id (snd (create (AtBlockEnd (Some i)) k args tys s))"
    by (simp add: create_def)
  show "opOrder (snd (create (AtBlockEnd (Some i)) k args tys s)) =
    placeAt (AtBlockEnd (Some i)) [next_id s..<next_id (snd (create (AtBlockEnd (Some i)) k args tys s))] s"
    by (simp add: create_def)
  show "\<forall>x. x < next_id s \<longrightarrow> opsOf (snd (create (AtBlockEnd (Some i)) k args tys s)) x = opsOf s x"
    by (simp add: create_def)
  show "\<forall>x. next_id s \<le> x \<and> x < next_id (snd (create (AtBlockEnd (Some i)) k args tys s)) \<longrightarrow>
        Suc (depth (opsOf s i)) \<le> depth (opsOf (snd (create (AtBlockEnd (Some i)) k args tys s)) x) \<and>
        kind (opsOf (snd (create (AtBlockEnd (Some i)) k args tys s)) x) \<in> bodyKinds hm s0"
    using k by (auto simp: create_def)
  show "\<forall>x. next_id (snd (create (AtBlockEnd (Some i)) k args tys s)) \<le> x \<longrightarrow>
        opsOf (snd (create (AtBlockEnd (Some i)) k args tys s)) x = opsOf s x"
    by (simp add: create_def)
qed

lemma building_cloneOp:
  assumes b: "building hm s0 i s"
  shows "building hm s0 i (snd (snd (cloneOp (AtBlockEnd (Some i)) src (cm, s))))"
proof -
  obtain cm' os' where c: "cloneOp (AtBlockEnd (Some i)) src (cm, s) =
     (next_id s, cm', \<lparr>opsOf = os', opOrder = placeAt (AtBlockEnd (Some i)) [next_id s..<next_id s + cloneSize s src] s,
        next_id = next_id s + cloneSize s src\<rparr>)"
    and old: "\<forall>j. j < next_id s \<longrightarrow> os' j = opsOf s j"
    and rest: "\<forall>x. next_id s + cloneSize s src \<le> x \<longrightarrow> os' x = opsOf s x"
    and new: "\<forall>x. next_id s \<le> x \<and> x < next_id s + cloneSize s src \<longrightarrow>
        depthAt s (AtBlockEnd (Some i)) \<le> depth (os' x) \<and> kind (os' x) \<in> range (\<lambda>y. kind (opsOf s y))"
    using cloneOp_spec[of "AtBlockEnd (Some i)" src cm s] by blast
  from b have kd: "\<forall>y. kind (opsOf s y) \<in> bodyKinds hm s0" by (simp add: building_def)
  show ?thesis unfolding c snd_conv using b
  proof (rule building_step)
    show "\<forall>x. next_id s \<le> x \<and> x < next_id \<lparr>opsOf = os', opOrder = placeAt (AtBlockEnd (Some i)) [next_id s..<next_id s + cloneSize s src] s,
        next_id = next_id s + cloneSize s src\<rparr> \<longrightarrow>
        Suc (depth (opsOf s i)) \<le> depth (opsOf \<lparr>opsOf = os', opOrder = placeAt (AtBlockEnd (Some i)) [next_id s..<next_id s + cloneSize s src] s,
        next_id = next_id s + cloneSize s src\<rparr> x) \<and>
        kind (opsOf \<lparr>opsOf = os', opOrder = placeAt (AtBlockEnd (Some i)) [next_id s..<next_id s + cloneSize s src] s,
        next_id = next_id s + cloneSize s src\<rparr> x) \<in> bodyKinds hm s0"
      using new kd by auto
  qed (use old rest in simp_all)
qed

lemma building_reuse:
  "building hm s0 i s \<Longrightarrow>
   building hm s0 i (snd (snd (reuseResults hm (AtBlockEnd (Some i)) src js (nc, cm, s))))"
proof (induction js arbitrary: nc cm s)
  case Nil
  then show ?case by simp
next
  case (Cons j js)
  show ?case
  proof (cases "hm (OpResult src j)")
    case None
    with Cons.prems show ?thesis by simp
  next
    case (Some g)
    then have "GlobalLoadOp g \<in> bodyKinds hm s0" by (auto simp: bodyKinds_def ran_def)
    from building_create[OF Cons.prems this]
    have b: "building hm s0 i (snd (create (AtBlockEnd (Some i)) (GlobalLoadOp g) [] (globalTypes s g) s))" .
    obtain l s1 where c: "create (AtBlockEnd (Some i)) (GlobalLoadOp g) [] (globalTypes s g) s = (l, s1)"
      by (cases "create (AtBlockEnd (Some i)) (GlobalLoadOp g) [] (globalTypes s g) s")
    with b have "building hm s0 i s1" by simp
    from Cons.IH[OF this] show ?thesis using Some c by simp
  qed
qed

lemma building_cloneSliceOp:
  assumes "building hm s0 i s"
  shows "building hm s0 i (snd (cloneSliceOp hm (AtBlockEnd (Some i)) src (cm, s)))"
proof -
  obtain nc cm1 s1 where r: "reuseResults hm (AtBlockEnd (Some i)) src [0..<numResults s src] (True, cm, s) = (nc, cm1, s1)"
    by (metis prod_cases3)
  from building_reuse[OF assms, of src "[0..<numResults s src]" True cm] r
  have b1: "building hm s0 i s1" by simp
  show ?thesis
  proof (cases nc)
    case True
    with r have "cloneSliceOp hm (AtBlockEnd (Some i)) src (cm, s) = snd (cloneOp (AtBlockEnd (Some i)) src (cm1, s1))"
      by (simp add: cloneSliceOp_def)
    with building_cloneOp[OF b1] show ?thesis by simp
  next
    case False
    with r have "cloneSliceOp hm (AtBlockEnd (Some i)) src (cm, s) = (cm1, s1)"
      by (simp add: cloneSliceOp_def)
    with b1 show ?thesis by simp
  qed
qed

lemma building_fold:
  "building hm s0 i s \<Longrightarrow>
   building hm s0 i (snd (fold (cloneSliceOp hm (AtBlockEnd (Some i))) slice (cm, s)))"
proof (induction slice arbitrary: cm s)
  case Nil
  then show ?case by simp
next
  case (Cons a slice)
  obtain cm1 s1 where c: "cloneSliceOp hm (AtBlockEnd (Some i)) a (cm, s) = (cm1, s1)"
    by (cases "cloneSliceOp hm (AtBlockEnd (Some i)) a (cm, s)")
  with building_cloneSliceOp[OF Cons.prems, of a cm] have "building hm s0 i s1" by simp
  from Cons.IH[OF this] c show ?case by simp
qed

lemma dropWhile_notin: "i \<notin> set G \<Longrightarrow> dropWhile (\<lambda>x. x \<noteq> i) (G @ R) = dropWhile (\<lambda>x. x \<noteq> i) R"
  by (induction G) auto

lemma takeWhile_notin: "i \<notin> set G \<Longrightarrow> takeWhile (\<lambda>x. x \<noteq> i) (G @ i # R) = G"
  by (induction G) auto

lemma insertBefore_mid:
  "f \<notin> set G \<Longrightarrow> insertBefore f new (G @ f # rest) = G @ new @ f # rest"
  by (simp add: insertBefore_def takeWhile_notin dropWhile_notin)

lemma lastInit_prefix:
  assumes "lastInit s i" and "opOrder s = G @ R" and "opOrder s' = G' @ R"
    and "i \<notin> set G" and "i \<notin> set G'"
    and "\<forall>x \<in> set (opOrder s). deeper s' i x = deeper s i x"
  shows "lastInit s' i"
proof -
  have a: "dropWhile (\<lambda>x. x \<noteq> i) (opOrder s) = dropWhile (\<lambda>x. x \<noteq> i) R"
    using assms(2,4) by (simp add: dropWhile_notin)
  have b: "dropWhile (\<lambda>x. x \<noteq> i) (opOrder s') = dropWhile (\<lambda>x. x \<noteq> i) R"
    using assms(3,5) by (simp add: dropWhile_notin)
  have c: "set (tl (dropWhile (\<lambda>x. x \<noteq> i) R)) \<subseteq> set (opOrder s)"
    using set_tl_dropWhile[of "\<lambda>x. x \<noteq> i" R] assms(2) by auto
  from assms(1) have "i \<in> set R" using assms(2,4) by (auto simp: lastInit_def)
  then have "i \<in> set (opOrder s')" using assms(3) by simp
  moreover have "\<forall>x \<in> set (tl (dropWhile (\<lambda>x. x \<noteq> i) (opOrder s'))). deeper s' i x"
    using assms(1,6) a b c unfolding lastInit_def by auto
  ultimately show ?thesis by (simp add: lastInit_def)
qed

lemma store_step:
  fixes ka kb :: op_kind and args :: "val list"
  assumes w: "wfState s" and l: "lastInit s i" and o: "opOrder s = G @ f # rest"
    and fG: "f \<notin> set G" and iG: "i \<notin> set G"
  defines "s1 \<equiv> snd (create (BeforeOp f) ka [] [] s)"
  defines "s2 \<equiv> snd (create (AtBlockEnd (Some i)) kb args [] s1)"
  shows "opOrder s2 = (G @ [next_id s]) @ f # (rest @ [Suc (next_id s)]) \<and>
         next_id s2 = Suc (Suc (next_id s)) \<and>
         opsOf s2 = (opsOf s)
            (next_id s := \<lparr>kind = ka, operands = [], results = [], depth = depth (opsOf s f)\<rparr>,
             Suc (next_id s) := \<lparr>kind = kb, operands = args, results = [], depth = Suc (depth (opsOf s i))\<rparr>) \<and>
         wfState s2 \<and> lastInit s2 i"
proof -
  have n1: "next_id s1 = Suc (next_id s)" by (simp add: s1_def create_def)
  have ops1: "opsOf s1 = (opsOf s)(next_id s := \<lparr>kind = ka, operands = [], results = [], depth = depth (opsOf s f)\<rparr>)"
    by (simp add: s1_def create_def)
  have o1: "opOrder s1 = (G @ [next_id s]) @ f # rest"
    using o fG by (simp add: s1_def create_def insertBefore_mid)
  have w1: "wfState s1" unfolding s1_def using w by (rule wfState_create)
  from l have iin: "i \<in> set (opOrder s)" by (simp add: lastInit_def)
  with w have ilt: "i < next_id s" by (simp add: wfState_def)
  have dpe: "\<forall>x \<in> set (opOrder s). deeper s1 i x = deeper s i x"
    using w ilt by (auto simp: deeper_def ops1 wfState_def)
  have l1: "lastInit s1 i"
    using l o _ iG _ dpe
  proof (rule lastInit_prefix)
    show "opOrder s1 = (G @ [next_id s]) @ f # rest" by (rule o1)
    show "i \<notin> set (G @ [next_id s])" using iG ilt by auto
  qed
  have o2: "opOrder s2 = opOrder s1 @ [next_id s1]"
    using placeAt_end_last[OF l1] by (simp add: s2_def create_def)
  have di: "depth (opsOf s1 i) = depth (opsOf s i)" using ilt by (simp add: ops1)
  have ops2: "opsOf s2 = (opsOf s1)(next_id s1 := \<lparr>kind = kb, operands = args, results = [], depth = Suc (depth (opsOf s i))\<rparr>)"
    by (simp add: s2_def create_def di)
  have w2: "wfState s2" unfolding s2_def using w1 by (rule wfState_create)
  have il1: "i < next_id s1" using ilt n1 by simp
  have "\<forall>x \<in> set (opOrder s1). deeper s2 i x = deeper s1 i x"
    using w1 il1 by (auto simp: deeper_def ops2 wfState_def)
  moreover have "\<forall>x \<in> set [next_id s1]. deeper s2 i x"
    using il1 di by (simp add: deeper_def ops2)
  ultimately have l2: "lastInit s2 i" using lastInit_append[OF l1 o2] by blast
  have n2: "next_id s2 = Suc (Suc (next_id s))" using n1 by (simp add: s2_def create_def)
  from o1 o2 n1 n2 ops1 ops2 w2 l2 show ?thesis by simp
qed

lemma storeResults_spec:
  "wfState s \<Longrightarrow> lastInit s i \<Longrightarrow> opOrder s = G @ f # rest \<Longrightarrow> f \<notin> set G \<Longrightarrow> i \<notin> set G \<Longrightarrow>
   storeResults (BeforeOp f) (AtBlockEnd (Some i)) cm r (enumerate j0 tys) (hm, s) = (hm', s') \<Longrightarrow>
   storeSpec f i cm r j0 tys G rest hm s hm' s'"
proof (induction tys arbitrary: s G rest j0 hm)
  case Nil
  then show ?case by (auto simp add: storeSpec_def)
next
  case (Cons t tys)
  let ?n = "next_id s"
  let ?k1 = "GlobalOp ''hoisted'' False t Private"
  let ?k2 = "GlobalStoreOp ?n"
  let ?args = "[lookupOrDefault cm (OpResult r j0)]"
  define s1 where "s1 = snd (create (BeforeOp f) ?k1 [] [] s)"
  define s2 where "s2 = snd (create (AtBlockEnd (Some i)) ?k2 ?args [] s1)"
  have c1: "create (BeforeOp f) ?k1 [] [] s = (?n, s1)"
    by (simp add: s1_def create_def)
  have n1: "next_id s1 = Suc ?n" by (simp add: s1_def create_def)
  have c2: "create (AtBlockEnd (Some i)) ?k2 ?args [] s1 = (Suc ?n, s2)"
    using n1 by (simp add: s2_def create_def)
  from store_step[OF Cons.prems(1-5), where ka="?k1" and kb="?k2" and args="?args"]
  have st: "opOrder s2 = (G @ [?n]) @ f # (rest @ [Suc ?n])" "next_id s2 = Suc (Suc ?n)"
    "opsOf s2 = (opsOf s)
            (?n := \<lparr>kind = ?k1, operands = [], results = [], depth = depth (opsOf s f)\<rparr>,
             Suc ?n := \<lparr>kind = ?k2, operands = ?args, results = [], depth = Suc (depth (opsOf s i))\<rparr>)"
    "wfState s2" "lastInit s2 i"
    unfolding s1_def s2_def by blast+
  from Cons.prems(6) c1 c2
  have rec: "storeResults (BeforeOp f) (AtBlockEnd (Some i)) cm r (enumerate (Suc j0) tys)
      (hm(OpResult r j0 \<mapsto> ?n), s2) = (hm', s')"
    by simp
  from Cons.prems(1,3) have flt: "f < ?n" by (simp add: wfState_def)
  from Cons.prems(1,2) have ilt: "i < ?n" by (simp add: wfState_def lastInit_def)
  have fG: "f \<notin> set (G @ [?n])" using Cons.prems(4) flt by auto
  have iG: "i \<notin> set (G @ [?n])" using Cons.prems(5) ilt by auto
  from Cons.IH[OF st(4) st(5) st(1) fG iG rec]
  have ih: "storeSpec f i cm r (Suc j0) tys (G @ [?n]) (rest @ [Suc ?n]) (hm(OpResult r j0 \<mapsto> ?n)) s2 hm' s'" .
  have df: "depth (opsOf s2 f) = depth (opsOf s f)" using flt by (simp add: st(3))
  have di: "depth (opsOf s2 i) = depth (opsOf s i)" using ilt by (simp add: st(3))
  have m1: "map (\<lambda>p. ?n + 2 * p) [0..<length (t # tys)] = ?n # map (\<lambda>p. next_id s2 + 2 * p) [0..<length tys]"
    by (simp add: map_upt_Suc st(2) del: upt_Suc)
  have m2: "map (\<lambda>p. Suc (?n + 2 * p)) [0..<length (t # tys)] = Suc ?n # map (\<lambda>p. Suc (next_id s2 + 2 * p)) [0..<length tys]"
    by (simp add: map_upt_Suc st(2) del: upt_Suc)
  have a1: "next_id s' = ?n + 2 * length (t # tys)"
    using ih by (simp add: storeSpec_def st(2))
  have a2: "opOrder s' = G @ map (\<lambda>p. ?n + 2 * p) [0..<length (t # tys)] @ f # rest
                     @ map (\<lambda>p. Suc (?n + 2 * p)) [0..<length (t # tys)]"
    using ih unfolding m1 m2 by (simp add: storeSpec_def)
  have a3: "\<forall>x. x < ?n \<longrightarrow> opsOf s' x = opsOf s x"
    using ih by (simp add: storeSpec_def st(2) st(3))
  have a4: "\<forall>x. ?n + 2 * length (t # tys) \<le> x \<longrightarrow> opsOf s' x = opsOf s x"
    using ih by (simp add: storeSpec_def st(2) st(3))
  have ihold: "\<forall>x. x < Suc (Suc ?n) \<longrightarrow> opsOf s' x = opsOf s2 x"
    using ih by (simp add: storeSpec_def st(2))
  have ihnew: "\<forall>p. p < length tys \<longrightarrow>
         opsOf s' (Suc (Suc ?n) + 2 * p) =
           \<lparr>kind = GlobalOp ''hoisted'' False (tys ! p) Private, operands = [], results = [],
              depth = depth (opsOf s f)\<rparr> \<and>
         opsOf s' (Suc (Suc (Suc ?n) + 2 * p)) =
           \<lparr>kind = GlobalStoreOp (Suc (Suc ?n) + 2 * p),
              operands = [lookupOrDefault cm (OpResult r (Suc j0 + p))], results = [],
              depth = Suc (depth (opsOf s i))\<rparr>"
    using ih by (simp add: storeSpec_def st(2) df di)
  have a5: "\<forall>p. p < length (t # tys) \<longrightarrow>
         opsOf s' (?n + 2 * p) =
           \<lparr>kind = GlobalOp ''hoisted'' False ((t # tys) ! p) Private, operands = [], results = [],
              depth = depth (opsOf s f)\<rparr> \<and>
         opsOf s' (Suc (?n + 2 * p)) =
           \<lparr>kind = GlobalStoreOp (?n + 2 * p),
              operands = [lookupOrDefault cm (OpResult r (j0 + p))], results = [],
              depth = Suc (depth (opsOf s i))\<rparr>"
  proof (intro allI impI)
    fix p assume p: "p < length (t # tys)"
    show "opsOf s' (?n + 2 * p) =
           \<lparr>kind = GlobalOp ''hoisted'' False ((t # tys) ! p) Private, operands = [], results = [],
              depth = depth (opsOf s f)\<rparr> \<and>
         opsOf s' (Suc (?n + 2 * p)) =
           \<lparr>kind = GlobalStoreOp (?n + 2 * p),
              operands = [lookupOrDefault cm (OpResult r (j0 + p))], results = [],
              depth = Suc (depth (opsOf s i))\<rparr>"
    proof (cases p)
      case 0
      with ihold show ?thesis by (simp add: st(3))
    next
      case (Suc p')
      with p have "p' < length tys" by simp
      with ihnew Suc show ?thesis by simp
    qed
  qed
  have ihhm: "\<forall>a q. hm' (OpResult a q) =
         (if a = r \<and> Suc j0 \<le> q \<and> q < Suc j0 + length tys then Some (Suc (Suc ?n) + 2 * (q - Suc j0))
          else (hm(OpResult r j0 \<mapsto> ?n)) (OpResult a q))"
    using ih by (simp add: storeSpec_def st(2))
  have a6: "\<forall>a q. hm' (OpResult a q) =
         (if a = r \<and> j0 \<le> q \<and> q < j0 + length (t # tys) then Some (?n + 2 * (q - j0))
          else hm (OpResult a q))"
  proof (intro allI)
    fix a q
    show "hm' (OpResult a q) =
         (if a = r \<and> j0 \<le> q \<and> q < j0 + length (t # tys) then Some (?n + 2 * (q - j0))
          else hm (OpResult a q))"
    proof (cases "a = r \<and> Suc j0 \<le> q \<and> q < Suc j0 + length tys")
      case True
      then have "Suc (Suc ?n) + 2 * (q - Suc j0) = ?n + 2 * (q - j0)" by arith
      with True ihhm show ?thesis by simp
    next
      case False
      from ihhm have "hm' (OpResult a q) =
         (if a = r \<and> Suc j0 \<le> q \<and> q < Suc j0 + length tys then Some (Suc (Suc ?n) + 2 * (q - Suc j0))
          else (hm(OpResult r j0 \<mapsto> ?n)) (OpResult a q))" by blast
      then have e: "hm' (OpResult a q) = (hm(OpResult r j0 \<mapsto> ?n)) (OpResult a q)"
        by (simp only: False if_False)
      show ?thesis
      proof (cases "a = r \<and> q = j0")
        case True
        with e show ?thesis by simp
      next
        case nf: False
        with False have nr: "\<not> (a = r \<and> j0 \<le> q \<and> q < j0 + length (t # tys))" by auto
        from nf e have "hm' (OpResult a q) = hm (OpResult a q)" by auto
        then show ?thesis by (simp only: nr if_False)
      qed
    qed
  qed
  have a7: "\<forall>a q. hm' (BlockArg a q) = hm (BlockArg a q)"
    using ih by (simp add: storeSpec_def)
  have a8: "wfState s' \<and> lastInit s' i" using ih by (simp add: storeSpec_def)
  from a1 a2 a3 a4 a5 a6 a7 a8 show ?case unfolding storeSpec_def by blast
qed

lemma cloneConstExprInto_spec:
  assumes w: "wfState s0" and l: "lastInit s0 i" and i0: "i < next_id s0" and r0: "r < next_id s0"
  shows "\<exists>n2 hm' s4. cloneConstExprInto env i (OpResult r j) (s0, hm) = Inr (s4, hm') \<and>
           clonedInto i r hm s0 n2 hm' s4"
proof -
  let ?ib = "AtBlockEnd (Some i)"
  obtain cm1 s1 where f1: "fold (cloneSliceOp hm ?ib) (getBackwardSlice env s0 r) (Map.empty, s0) = (cm1, s1)"
    by (cases "fold (cloneSliceOp hm ?ib) (getBackwardSlice env s0 r) (Map.empty, s0)")
  have b0: "building hm s0 i s0" using w l i0 by (rule building_init)
  from building_fold[OF b0, of "getBackwardSlice env s0 r" Map.empty] f1
  have b1: "building hm s0 i s1" by simp
  obtain c cm2 s2 where c2: "cloneOp ?ib r (cm1, s1) = (c, cm2, s2)"
    by (metis prod_cases3)
  from building_cloneOp[OF b1, of r cm1] c2 have b2: "building hm s0 i s2" by simp
  from cloneOp_spec[of ?ib r cm1 s1] c2 have n12: "next_id s2 = next_id s1 + cloneSize s1 r"
    by auto
  have "0 < cloneSize s1 r" by (simp add: cloneSize_def)
  with n12 have lt12: "next_id s1 < next_id s2" by simp
  from b1 have n01: "next_id s0 \<le> next_id s1" by (simp add: building_def)
  from b2 have w2: "wfState s2" and l2: "lastInit s2 i"
    and o2: "opOrder s2 = opOrder s0 @ [next_id s0..<next_id s2]"
    and old2: "\<forall>x. x < next_id s0 \<longrightarrow> opsOf s2 x = opsOf s0 x"
    and new2: "\<forall>x. next_id s0 \<le> x \<and> x < next_id s2 \<longrightarrow> depth (opsOf s0 i) < depth (opsOf s2 x)"
    and kd2: "\<forall>y. kind (opsOf s2 y) \<in> bodyKinds hm s0"
    by (simp_all add: building_def)
  from b1 have o1: "opOrder s1 = opOrder s0 @ [next_id s0..<next_id s1]" by (simp add: building_def)
  from l have ne: "opOrder s0 \<noteq> []" by (auto simp: lastInit_def)
  then obtain f rest0 where fr: "opOrder s0 = f # rest0" by (cases "opOrder s0") auto
  have gb: "getModuleBeginBuilder s1 = BeforeOp f"
    by (simp add: getModuleBeginBuilder_def o1 fr)
  have o2': "opOrder s2 = [] @ f # (rest0 @ [next_id s0..<next_id s2])"
    using o2 fr by simp
  have res: "results (opsOf s2 r) = results (opsOf s0 r)" using old2 r0 by simp
  let ?N = "numResults s0 r"
  obtain hm' s3 where st: "storeResults (BeforeOp f) ?ib cm2 r (enumerate 0 (results (opsOf s0 r))) (hm, s2) = (hm', s3)"
    by (cases "storeResults (BeforeOp f) ?ib cm2 r (enumerate 0 (results (opsOf s0 r))) (hm, s2)")
  from storeResults_spec[OF w2 l2 o2' _ _ st]
  have sp: "storeSpec f i cm2 r 0 (results (opsOf s0 r)) [] (rest0 @ [next_id s0..<next_id s2]) hm s2 hm' s3"
    by simp
  let ?n2 = "next_id s2"
  from sp have n3: "next_id s3 = ?n2 + 2 * ?N"
    and o3: "opOrder s3 = map (\<lambda>p. ?n2 + 2 * p) [0..<?N] @ f # (rest0 @ [next_id s0..<?n2])
                     @ map (\<lambda>p. Suc (?n2 + 2 * p)) [0..<?N]"
    and old3: "\<forall>x. x < ?n2 \<longrightarrow> opsOf s3 x = opsOf s2 x"
    and new3: "\<forall>p. p < ?N \<longrightarrow>
         opsOf s3 (?n2 + 2 * p) =
           \<lparr>kind = GlobalOp ''hoisted'' False (results (opsOf s0 r) ! p) Private, operands = [], results = [],
              depth = depth (opsOf s2 f)\<rparr> \<and>
         opsOf s3 (Suc (?n2 + 2 * p)) =
           \<lparr>kind = GlobalStoreOp (?n2 + 2 * p),
              operands = [lookupOrDefault cm2 (OpResult r (0 + p))], results = [],
              depth = Suc (depth (opsOf s2 i))\<rparr>"
    and hm3: "\<forall>a q. hm' (OpResult a q) =
         (if a = r \<and> 0 \<le> q \<and> q < 0 + ?N then Some (?n2 + 2 * (q - 0))
          else hm (OpResult a q))"
    and hmb: "\<forall>a q. hm' (BlockArg a q) = hm (BlockArg a q)"
    and w3: "wfState s3" and l3: "lastInit s3 i"
    by (simp_all add: storeSpec_def numResults_def)
  obtain ret s4 where c4: "create ?ib InitializerReturnOp [] [] s3 = (ret, s4)"
    by (cases "create ?ib InitializerReturnOp [] [] s3")
  then have n4: "next_id s4 = Suc (next_id s3)"
    and ops4: "opsOf s4 = (opsOf s3)(next_id s3 := \<lparr>kind = InitializerReturnOp, operands = [], results = [],
              depth = Suc (depth (opsOf s3 i))\<rparr>)"
    and o4: "opOrder s4 = opOrder s3 @ [next_id s3]"
    using placeAt_end_last[OF l3] by (auto simp: create_def)
  have w4: "wfState s4" using wfState_create[OF w3, of ?ib InitializerReturnOp "[]" "[]"] c4 by simp
  have i3: "i < next_id s3" using i0 n01 lt12 n3 by simp
  have "\<forall>x \<in> set (opOrder s3). deeper s4 i x = deeper s3 i x"
    using w3 i3 by (auto simp: deeper_def ops4 wfState_def)
  moreover have "\<forall>x \<in> set [next_id s3]. deeper s4 i x"
    using i3 by (simp add: deeper_def ops4)
  ultimately have l4: "lastInit s4 i" using lastInit_append[OF l3 o4] by blast
  have flt: "f < next_id s0" using w fr by (simp add: wfState_def)
  have i2: "i < ?n2" using i0 n01 lt12 by simp
  have df: "depth (opsOf s2 f) = depth (opsOf s0 (hd (opOrder s0)))" using old2 flt fr by simp
  have di2: "depth (opsOf s2 i) = depth (opsOf s0 i)" using old2 i0 by simp
  have di3: "depth (opsOf s3 i) = depth (opsOf s0 i)" using old3 i2 di2 by simp
  have run: "cloneConstExprInto env i (OpResult r j) (s0, hm) = Inr (s4, hm')"
    by (simp add: cloneConstExprInto_def f1 gb c2 res st c4)
  have a1: "next_id s0 < ?n2" using n01 lt12 by simp
  have a2: "next_id s4 = Suc (?n2 + 2 * ?N)" using n4 n3 by simp
  have a3: "opOrder s4 = map (\<lambda>p. ?n2 + 2 * p) [0..<?N] @ opOrder s0 @ [next_id s0..<?n2]
                     @ map (\<lambda>p. Suc (?n2 + 2 * p)) [0..<?N] @ [?n2 + 2 * ?N]"
    using o4 o3 n3 fr by simp
  have a4: "\<forall>x. x < next_id s0 \<longrightarrow> opsOf s4 x = opsOf s0 x"
    using old2 old3 a1 n3 by (simp add: ops4)
  have a5: "\<forall>x. next_id s0 \<le> x \<and> x < ?n2 \<longrightarrow>
           depth (opsOf s0 i) < depth (opsOf s4 x) \<and> kind (opsOf s4 x) \<in> bodyKinds hm s0"
    using new2 kd2 old3 n3 by (simp add: ops4)
  have a6: "\<forall>p. p < ?N \<longrightarrow>
         opsOf s4 (?n2 + 2 * p) =
           \<lparr>kind = GlobalOp ''hoisted'' False (results (opsOf s0 r) ! p) Private, operands = [],
              results = [], depth = depth (opsOf s0 (hd (opOrder s0)))\<rparr> \<and>
         kind (opsOf s4 (Suc (?n2 + 2 * p))) = GlobalStoreOp (?n2 + 2 * p) \<and>
         depth (opsOf s4 (Suc (?n2 + 2 * p))) = Suc (depth (opsOf s0 i))"
    using new3 n3 df di2 by (simp add: ops4)
  have a7: "opsOf s4 (?n2 + 2 * ?N) =
         \<lparr>kind = InitializerReturnOp, operands = [], results = [], depth = Suc (depth (opsOf s0 i))\<rparr>"
    using n3 di3 by (simp add: ops4)
  have a8: "\<forall>a q. hm' (OpResult a q) =
         (if a = r \<and> q < ?N then Some (?n2 + 2 * q) else hm (OpResult a q))"
    using hm3 by simp
  have "clonedInto i r hm s0 ?n2 hm' s4"
    unfolding clonedInto_def using a1 a2 a3 a4 a5 a6 a7 a8 hmb w4 l4 by blast
  with run show ?thesis by blast
qed

lemma insertBefore_inner:
  "t \<notin> set G \<Longrightarrow> t \<in> set xs \<Longrightarrow> insertBefore t new (G @ xs @ ys) = G @ insertBefore t new xs @ ys"
proof -
  assume g: "t \<notin> set G" and x: "t \<in> set xs"
  have a: "takeWhile (\<lambda>x. x \<noteq> t) (G @ xs @ ys) = G @ takeWhile (\<lambda>x. x \<noteq> t) xs"
    using g x by (induction G) (auto simp: takeWhile_append1)
  have b: "dropWhile (\<lambda>x. x \<noteq> t) (G @ xs @ ys) = dropWhile (\<lambda>x. x \<noteq> t) xs @ ys"
    using g x by (simp add: dropWhile_notin dropWhile_append1)
  show ?thesis by (simp add: insertBefore_def a b)
qed

lemma lastInit_fresh_end:
  assumes "wfState s"
  shows "lastInit (snd (create (AtBlockEnd None) InitializerOp [] [] s)) (next_id s)"
proof -
  from assms have "next_id s \<notin> set (opOrder s)" by (auto simp: wfState_def)
  then have "dropWhile (\<lambda>x. x \<noteq> next_id s) (opOrder s @ [next_id s]) = [next_id s]"
    by (simp add: dropWhile_notin)
  then show ?thesis by (simp add: lastInit_def create_def)
qed

lemma hoistConstExpr_fresh:
  assumes w: "wfState s" and t: "fst u \<in> set (opOrder s)"
    and v: "operandGet s u = OpResult r j" and r: "r < next_id s" and j: "j < numResults s r"
    and m: "hm (OpResult r j) = None"
  shows "\<exists>n2 hm' s'. hoistConstExpr env u (s, hm) = Inr (s', hm') \<and> hoistedFresh u r j hm s n2 hm' s'"
proof -
  let ?i = "next_id s"
  let ?N = "numResults s r"
  define s0 where "s0 = snd (create (AtBlockEnd None) InitializerOp [] [] s)"
  have c0: "create (getModuleEndBuilder s) InitializerOp [] [] s = (?i, s0)"
    by (simp add: s0_def create_def getModuleEndBuilder_def)
  have n0: "next_id s0 = Suc ?i" and ops0: "opsOf s0 = (opsOf s)(?i := \<lparr>kind = InitializerOp, operands = [], results = [], depth = 0\<rparr>)"
    and o0: "opOrder s0 = opOrder s @ [?i]"
    by (simp_all add: s0_def create_def)
  have w0: "wfState s0" unfolding s0_def using w by (rule wfState_create)
  have l0: "lastInit s0 ?i" unfolding s0_def using w by (rule lastInit_fresh_end)
  have r0: "r < next_id s0" using r n0 by simp
  have i0: "?i < next_id s0" using n0 by simp
  from cloneConstExprInto_spec[OF w0 l0 i0 r0, of env j hm]
  obtain n2 hm' s4 where run: "cloneConstExprInto env ?i (OpResult r j) (s0, hm) = Inr (s4, hm')"
    and ci: "clonedInto ?i r hm s0 n2 hm' s4" by blast
  have nr: "numResults s0 r = ?N" using r by (simp add: numResults_def ops0)
  have rr: "results (opsOf s0 r) = results (opsOf s r)" using r by (simp add: ops0)
  have di: "depth (opsOf s0 ?i) = 0" by (simp add: ops0)
  have bk: "bodyKinds hm s0 \<subseteq> insert InitializerOp (bodyKinds hm s)"
    by (auto simp: bodyKinds_def ops0)
  from ci have lt: "next_id s0 < n2"
    and n4: "next_id s4 = Suc (n2 + 2 * ?N)"
    and o4: "opOrder s4 = map (\<lambda>p. n2 + 2 * p) [0..<?N] @ opOrder s0 @ [next_id s0..<n2]
                     @ map (\<lambda>p. Suc (n2 + 2 * p)) [0..<?N] @ [n2 + 2 * ?N]"
    and old4: "\<forall>x. x < next_id s0 \<longrightarrow> opsOf s4 x = opsOf s0 x"
    and new4: "\<forall>x. next_id s0 \<le> x \<and> x < n2 \<longrightarrow>
           depth (opsOf s0 ?i) < depth (opsOf s4 x) \<and> kind (opsOf s4 x) \<in> bodyKinds hm s0"
    and gl4: "\<forall>p. p < ?N \<longrightarrow>
         opsOf s4 (n2 + 2 * p) =
           \<lparr>kind = GlobalOp ''hoisted'' False (results (opsOf s0 r) ! p) Private, operands = [],
              results = [], depth = depth (opsOf s0 (hd (opOrder s0)))\<rparr> \<and>
         kind (opsOf s4 (Suc (n2 + 2 * p))) = GlobalStoreOp (n2 + 2 * p) \<and>
         depth (opsOf s4 (Suc (n2 + 2 * p))) = Suc (depth (opsOf s0 ?i))"
    and ret4: "opsOf s4 (n2 + 2 * ?N) =
         \<lparr>kind = InitializerReturnOp, operands = [], results = [], depth = Suc (depth (opsOf s0 ?i))\<rparr>"
    and hm4: "\<forall>a q. hm' (OpResult a q) =
         (if a = r \<and> q < ?N then Some (n2 + 2 * q) else hm (OpResult a q))"
    and hmb: "\<forall>a q. hm' (BlockArg a q) = hm (BlockArg a q)"
    and w4: "wfState s4"
    unfolding clonedInto_def nr by blast+
  let ?g = "n2 + 2 * j"
  let ?l = "Suc (n2 + 2 * ?N)"
  from hm4 j have hv: "hm' (OpResult r j) = Some ?g" by simp
  from gl4 j rr have gk: "kind (opsOf s4 ?g) = GlobalOp ''hoisted'' False (results (opsOf s r) ! j) Private"
    by simp
  then have gt: "globalTypes s4 ?g = [results (opsOf s r) ! j]" by (simp add: globalTypes_def)
  define s5 where "s5 = snd (create (BeforeOp (fst u)) (GlobalLoadOp ?g) [] [results (opsOf s r) ! j] s4)"
  have c5: "create (BeforeOp (fst u)) (GlobalLoadOp ?g) [] (globalTypes s4 ?g) s4 = (?l, s5)"
    by (simp add: s5_def create_def n4 gt)
  have tlt: "fst u < ?i" using w t by (simp add: wfState_def)
  have tl0: "fst u < next_id s0" using tlt n0 by simp
  have dt: "depth (opsOf s4 (fst u)) = depth (opsOf s (fst u))"
    using old4 tl0 tlt by (simp add: ops0)
  have ops5: "opsOf s5 = (opsOf s4)(?l := \<lparr>kind = GlobalLoadOp ?g, operands = [],
        results = [results (opsOf s r) ! j], depth = depth (opsOf s (fst u))\<rparr>)"
    by (simp add: s5_def create_def n4 dt)
  have n5: "next_id s5 = Suc ?l" by (simp add: s5_def create_def n4)
  have tG: "fst u \<notin> set (map (\<lambda>p. n2 + 2 * p) [0..<?N])"
    using tlt lt n0 by auto
  have "opOrder s5 = insertBefore (fst u) [?l] (opOrder s4)"
    by (simp add: s5_def create_def n4)
  also have "\<dots> = map (\<lambda>p. n2 + 2 * p) [0..<?N] @ insertBefore (fst u) [?l] (opOrder s)
       @ (?i # [Suc ?i..<n2] @ map (\<lambda>p. Suc (n2 + 2 * p)) [0..<?N] @ [n2 + 2 * ?N])"
    unfolding o4 o0 n0 using insertBefore_inner[OF tG t] by simp
  finally have o5: "opOrder s5 = map (\<lambda>p. n2 + 2 * p) [0..<?N] @ insertBefore (fst u) [?l] (opOrder s)
       @ ?i # [Suc ?i..<n2] @ map (\<lambda>p. Suc (n2 + 2 * p)) [0..<?N] @ [n2 + 2 * ?N]" by simp
  have w5: "wfState s5" unfolding s5_def using w4 by (rule wfState_create)
  define s' where "s' = operandSet u (OpResult ?l 0) s5"
  have run': "hoistConstExpr env u (s, hm) = Inr (s', hm')"
    using v m c0 run hv c5 by (simp add: hoistConstExpr_def s'_def)
  have os': "opsOf s' = (opsOf s5)(fst u := (opsOf s5 (fst u))
          \<lparr>operands := (operands (opsOf s5 (fst u)))[snd u := OpResult ?l 0]\<rparr>)"
    and ord': "opOrder s' = opOrder s5" and nn': "next_id s' = next_id s5"
    by (simp_all add: s'_def operandSet_def)
  have w': "wfState s'" using w5 by (simp add: wfState_def ord' nn')
  have tl4: "fst u < ?l" using tlt lt n0 by simp
  have o5t: "opsOf s5 (fst u) = opsOf s (fst u)"
    using old4 tl0 tlt tl4 by (simp add: ops5 ops0)
  have b1: "Suc ?i < n2" using lt n0 by simp
  have b2: "next_id s' = Suc (Suc (n2 + 2 * ?N))" using nn' n5 by simp
  have b4: "\<forall>x. x < ?i \<and> x \<noteq> fst u \<longrightarrow> opsOf s' x = opsOf s x"
    using old4 n0 lt by (simp add: os' ops5 ops0)
  have b5: "opsOf s' (fst u) = (opsOf s (fst u))
         \<lparr>operands := (operands (opsOf s (fst u)))[snd u := OpResult ?l 0]\<rparr>"
    using o5t by (simp add: os')
  have b6: "opsOf s' ?i = \<lparr>kind = InitializerOp, operands = [], results = [], depth = 0\<rparr>"
    using old4 n0 lt tlt by (simp add: os' ops5 ops0)
  have b7: "\<forall>x. Suc ?i \<le> x \<and> x < n2 \<longrightarrow>
           0 < depth (opsOf s' x) \<and> kind (opsOf s' x) \<in> insert InitializerOp (bodyKinds hm s)"
    using new4 bk tlt n0 di by (auto simp: os' ops5)
  from t obtain f rest where fr: "opOrder s = f # rest" by (cases "opOrder s") auto
  with w have flt: "f < ?i" by (simp add: wfState_def)
  have hd0: "depth (opsOf s0 (hd (opOrder s0))) = depth (opsOf s (hd (opOrder s)))"
    using flt by (simp add: o0 fr ops0)
  have b8: "\<forall>p. p < ?N \<longrightarrow>
         opsOf s' (n2 + 2 * p) =
           \<lparr>kind = GlobalOp ''hoisted'' False (results (opsOf s r) ! p) Private, operands = [],
              results = [], depth = depth (opsOf s (hd (opOrder s)))\<rparr> \<and>
         kind (opsOf s' (Suc (n2 + 2 * p))) = GlobalStoreOp (n2 + 2 * p) \<and>
         depth (opsOf s' (Suc (n2 + 2 * p))) = Suc 0"
    using gl4 rr hd0 di tlt lt n0 by (auto simp: os' ops5)
  have b9: "opsOf s' (n2 + 2 * ?N) =
         \<lparr>kind = InitializerReturnOp, operands = [], results = [], depth = Suc 0\<rparr>"
    using ret4 di tlt lt n0 by (simp add: os' ops5)
  have b10: "opsOf s' ?l =
         \<lparr>kind = GlobalLoadOp ?g, operands = [], results = [results (opsOf s r) ! j],
            depth = depth (opsOf s (fst u))\<rparr>"
    using tl4 by (simp add: os' ops5)
  have "hoistedFresh u r j hm s n2 hm' s'"
    unfolding hoistedFresh_def using b1 b2 o5 ord' b4 b5 b6 b7 b8 b9 b10 hm4 hmb w' by simp
  with run' show ?thesis by blast
qed

lemma hoistConstExpr_reuse:
  assumes w: "wfState s" and t: "fst u \<in> set (opOrder s)" and m: "hm (operandGet s u) = Some g"
  shows "\<exists>s'. hoistConstExpr env u (s, hm) = Inr (s', hm) \<and> hoistedReuse u g s s'"
proof -
  define s5 where "s5 = snd (create (BeforeOp (fst u)) (GlobalLoadOp g) [] (globalTypes s g) s)"
  define s' where "s' = operandSet u (OpResult (next_id s) 0) s5"
  have c5: "create (BeforeOp (fst u)) (GlobalLoadOp g) [] (globalTypes s g) s = (next_id s, s5)"
    by (simp add: s5_def create_def)
  have run: "hoistConstExpr env u (s, hm) = Inr (s', hm)"
    using m c5 by (simp add: hoistConstExpr_def s'_def)
  have tlt: "fst u < next_id s" using w t by (simp add: wfState_def)
  have w5: "wfState s5" unfolding s5_def using w by (rule wfState_create)
  then have w': "wfState s'" by (simp add: wfState_def s'_def operandSet_def)
  have "hoistedReuse u g s s'"
    unfolding hoistedReuse_def using tlt w'
    by (auto simp: s'_def operandSet_def s5_def create_def)
  with run show ?thesis by blast
qed






section \<open>The loops of the walk\<close>

lemma memoInv_empty: "memoInv s Map.empty"
  by (simp add: memoInv_def)

lemma memoInv_fresh:
  assumes mi: "memoInv s hm" and r: "r < next_id s" and j: "j < numResults s r"
    and none: "hm (OpResult r j) = None"
    and hm': "\<forall>a q. hm' (OpResult a q) =
         (if a = r \<and> q < numResults s r then Some (n2 + 2 * q) else hm (OpResult a q))"
    and hmb: "\<forall>a q. hm' (BlockArg a q) = hm (BlockArg a q)"
    and nn: "next_id s \<le> next_id s'"
    and res: "\<forall>x. x < next_id s \<longrightarrow> numResults s' x = numResults s x"
  shows "memoInv s' hm' \<and> (\<forall>v g. hm v = Some g \<longrightarrow> hm' v = Some g)"
proof -
  from mi none j have rn: "\<forall>q. hm (OpResult r q) = None"
    unfolding memoInv_def by (metis option.distinct(1))
  have a: "\<forall>a q. hm' (BlockArg a q) = None" using mi hmb by (simp add: memoInv_def)
  have b: "(\<forall>q. hm' (OpResult a q) = None) \<or>
           (a < next_id s' \<and> (\<forall>q. (hm' (OpResult a q) \<noteq> None) = (q < numResults s' a)))" for a
  proof (cases "a = r")
    case True
    have "\<forall>q. (hm' (OpResult r q) \<noteq> None) = (q < numResults s r)"
      using hm' rn by simp
    with r nn res True show ?thesis by simp
  next
    case False
    then have e: "\<forall>q. hm' (OpResult a q) = hm (OpResult a q)" using hm' by simp
    from mi have "(\<forall>q. hm (OpResult a q) = None) \<or>
           (a < next_id s \<and> (\<forall>q. (hm (OpResult a q) \<noteq> None) = (q < numResults s a)))"
      by (simp add: memoInv_def)
    with e nn res show ?thesis by auto
  qed
  have c: "\<forall>v g. hm v = Some g \<longrightarrow> hm' v = Some g"
  proof (intro allI impI)
    fix v g assume h: "hm v = Some g"
    show "hm' v = Some g"
    proof (cases v)
      case (OpResult a q)
      with h rn have "a \<noteq> r" by auto
      with hm' OpResult h show ?thesis by simp
    next
      case (BlockArg a q)
      with hmb h show ?thesis by simp
    qed
  qed
  from a b c show ?thesis unfolding memoInv_def by blast
qed

lemma memoInv_mono:
  assumes "memoInv s hm" and "next_id s \<le> next_id s'"
    and "\<forall>x. x < next_id s \<longrightarrow> numResults s' x = numResults s x"
  shows "memoInv s' hm"
  using assms unfolding memoInv_def by (metis less_le_trans)

lemma filter_same: "(\<And>x. x \<in> set xs \<Longrightarrow> P x = Q x) \<Longrightarrow> filter P xs = filter Q xs"
  by (rule filter_cong) auto

lemma filter_none: "(\<And>x. x \<in> set xs \<Longrightarrow> \<not> P x) \<Longrightarrow> filter P xs = []"
  by (simp add: filter_empty_conv)

lemma filter_all: "(\<And>x. x \<in> set xs \<Longrightarrow> P x) \<Longrightarrow> filter P xs = xs"
  by (simp add: filter_id_conv)

lemma filter_insertBefore:
  "\<not> P l \<Longrightarrow> filter P (insertBefore t [l] xs) = filter P xs"
proof -
  assume a: "\<not> P l"
  have "filter P (takeWhile (\<lambda>x. x \<noteq> t) xs) @ filter P (dropWhile (\<lambda>x. x \<noteq> t) xs) = filter P xs"
    by (metis filter_append takeWhile_dropWhile_id)
  with a show ?thesis by (simp add: insertBefore_def)
qed

lemma set_insertBefore: "set (insertBefore t new xs) = set xs \<union> set new"
proof -
  have "set (takeWhile (\<lambda>x. x \<noteq> t) xs) \<union> set (dropWhile (\<lambda>x. x \<noteq> t) xs) = set xs"
    by (metis set_append takeWhile_dropWhile_id)
  then show ?thesis unfolding insertBefore_def by auto
qed

lemma hoist_step_reuse:
  assumes w: "wfState s" and mi: "memoInv s hm" and t: "fst u \<in> set (opOrder s)"
    and v: "operandGet s u = OpResult r j" and m: "hm (OpResult r j) = Some g"
  shows "\<exists>s'. hoistConstExpr env u (s, hm) = Inr (s', hm) \<and> hoisted u r j (s, hm) (s', hm) (next_id s) g"
proof -
  from v m have m': "hm (operandGet s u) = Some g" by simp
  from hoistConstExpr_reuse[where hm=hm and env=env, OF w t m']
  obtain s' where run: "hoistConstExpr env u (s, hm) = Inr (s', hm)"
    and hr: "hoistedReuse u g s s'" by blast
  let ?l = "next_id s"
  from hr have n': "next_id s' = Suc ?l"
    and o': "opOrder s' = insertBefore (fst u) [?l] (opOrder s)"
    and old: "\<forall>x. x \<noteq> ?l \<and> x \<noteq> fst u \<longrightarrow> opsOf s' x = opsOf s x"
    and tu: "opsOf s' (fst u) = (opsOf s (fst u))
         \<lparr>operands := (operands (opsOf s (fst u)))[snd u := OpResult ?l 0]\<rparr>"
    and ld: "opsOf s' ?l = \<lparr>kind = GlobalLoadOp g, operands = [], results = globalTypes s g,
            depth = depth (opsOf s (fst u))\<rparr>"
    and w': "wfState s'"
    unfolding hoistedReuse_def by blast+
  have kd: "\<forall>x. x \<noteq> ?l \<longrightarrow> kind (opsOf s' x) = kind (opsOf s x) \<and> depth (opsOf s' x) = depth (opsOf s x)
      \<and> results (opsOf s' x) = results (opsOf s x)"
  proof (intro allI impI)
    fix x assume "x \<noteq> ?l"
    then show "kind (opsOf s' x) = kind (opsOf s x) \<and> depth (opsOf s' x) = depth (opsOf s x)
      \<and> results (opsOf s' x) = results (opsOf s x)"
      using old tu by (cases "x = fst u") auto
  qed
  have nl: "?l \<notin> set (opOrder s)" using w by (auto simp: wfState_def)
  have kdo: "\<forall>x \<in> set (opOrder s). kind (opsOf s' x) = kind (opsOf s x) \<and> depth (opsOf s' x) = depth (opsOf s x)"
  proof
    fix x assume "x \<in> set (opOrder s)"
    with nl have "x \<noteq> ?l" by auto
    with kd show "kind (opsOf s' x) = kind (opsOf s x) \<and> depth (opsOf s' x) = depth (opsOf s x)" by simp
  qed
  have mi': "memoInv s' hm"
    using mi _ _
  proof (rule memoInv_mono)
    show "next_id s \<le> next_id s'" using n' by simp
    show "\<forall>x. x < next_id s \<longrightarrow> numResults s' x = numResults s x"
      using kd by (simp add: numResults_def)
  qed
  have fi: "moduleInitializers s' = moduleInitializers s"
  proof -
    have "moduleInitializers s' = filter (\<lambda>x. kind (opsOf s' x) = InitializerOp \<and> depth (opsOf s' x) = 0) (opOrder s)"
      unfolding moduleInitializers_def o' by (rule filter_insertBefore) (simp add: ld)
    also have "\<dots> = moduleInitializers s"
      unfolding moduleInitializers_def using kdo by (intro filter_same) auto
    finally show ?thesis .
  qed
  have fg: "moduleGlobals s' = moduleGlobals s"
  proof -
    have "moduleGlobals s' = filter (\<lambda>x. isGlobalKind (kind (opsOf s' x)) \<and> depth (opsOf s' x) = 0) (opOrder s)"
      unfolding moduleGlobals_def o' by (rule filter_insertBefore) (simp add: ld isGlobalKind_def)
    also have "\<dots> = moduleGlobals s"
      unfolding moduleGlobals_def using kdo by (intro filter_same) auto
    finally show ?thesis .
  qed
  have ht: "headAtTop s \<longrightarrow> headAtTop s'"
  proof
    assume h: "headAtTop s"
    from t obtain f rest where fr: "opOrder s = f # rest" by (cases "opOrder s") auto
    with h have d0: "depth (opsOf s f) = 0" by (simp add: headAtTop_def)
    from fr nl have fl: "f \<noteq> ?l" by auto
    show "headAtTop s'"
    proof (cases "f = fst u")
      case True
      then have "opOrder s' = ?l # f # rest" by (simp add: o' insertBefore_def fr)
      with ld True d0 show ?thesis by (simp add: headAtTop_def)
    next
      case False
      then have "opOrder s' = f # insertBefore (fst u) [?l] rest" by (simp add: o' insertBefore_def fr)
      with kd fl d0 show ?thesis by (simp add: headAtTop_def)
    qed
  qed
  have "hoisted u r j (s, hm) (s', hm) ?l g"
    unfolding hoisted_def fst_conv snd_conv
    using w' mi' n' old tu ld m fi fg ht by (simp add: o' set_insertBefore subset_insertI2)
  with run show ?thesis by blast
qed

lemma hoist_step_fresh:
  assumes w: "wfState s" and mi: "memoInv s hm" and t: "fst u \<in> set (opOrder s)"
    and v: "operandGet s u = OpResult r j" and r: "r < next_id s" and j: "j < numResults s r"
    and m: "hm (OpResult r j) = None"
  shows "\<exists>s' hm' l g. hoistConstExpr env u (s, hm) = Inr (s', hm') \<and>
            hoisted u r j (s, hm) (s', hm') l g"
proof -
  from hoistConstExpr_fresh[where hm=hm and env=env, OF w t v r j m]
  obtain n2 hm' s' where run: "hoistConstExpr env u (s, hm) = Inr (s', hm')"
    and hf: "hoistedFresh u r j hm s n2 hm' s'" by blast
  let ?N = "numResults s r"
  let ?i = "next_id s"
  let ?l = "Suc (n2 + 2 * ?N)"
  let ?G = "map (\<lambda>p. n2 + 2 * p) [0..<?N]"
  let ?B = "map (\<lambda>p. Suc (n2 + 2 * p)) [0..<?N]"
  from hf have lt: "Suc ?i < n2" and n': "next_id s' = Suc ?l"
    and o': "opOrder s' = ?G @ insertBefore (fst u) [?l] (opOrder s) @ ?i # [Suc ?i..<n2] @ ?B @ [n2 + 2 * ?N]"
    and old: "\<forall>x. x < ?i \<and> x \<noteq> fst u \<longrightarrow> opsOf s' x = opsOf s x"
    and tu: "opsOf s' (fst u) = (opsOf s (fst u))
         \<lparr>operands := (operands (opsOf s (fst u)))[snd u := OpResult ?l 0]\<rparr>"
    and ld: "opsOf s' ?l = \<lparr>kind = GlobalLoadOp (n2 + 2 * j), operands = [],
            results = [results (opsOf s r) ! j], depth = depth (opsOf s (fst u))\<rparr>"
    and hm': "\<forall>a q. hm' (OpResult a q) =
         (if a = r \<and> q < ?N then Some (n2 + 2 * q) else hm (OpResult a q))"
    and hmb: "\<forall>a q. hm' (BlockArg a q) = hm (BlockArg a q)"
    and ini: "opsOf s' ?i = \<lparr>kind = InitializerOp, operands = [], results = [], depth = 0\<rparr>"
    and bdy: "\<forall>x. Suc ?i \<le> x \<and> x < n2 \<longrightarrow>
           0 < depth (opsOf s' x) \<and> kind (opsOf s' x) \<in> insert InitializerOp (bodyKinds hm s)"
    and gls: "\<forall>p. p < ?N \<longrightarrow>
         opsOf s' (n2 + 2 * p) =
           \<lparr>kind = GlobalOp ''hoisted'' False (results (opsOf s r) ! p) Private, operands = [],
              results = [], depth = depth (opsOf s (hd (opOrder s)))\<rparr> \<and>
         kind (opsOf s' (Suc (n2 + 2 * p))) = GlobalStoreOp (n2 + 2 * p) \<and>
         depth (opsOf s' (Suc (n2 + 2 * p))) = Suc 0"
    and ret: "opsOf s' (n2 + 2 * ?N) =
         \<lparr>kind = InitializerReturnOp, operands = [], results = [], depth = Suc 0\<rparr>"
    and w': "wfState s'"
    unfolding hoistedFresh_def by blast+
  have kdo: "\<forall>x \<in> set (opOrder s). kind (opsOf s' x) = kind (opsOf s x) \<and> depth (opsOf s' x) = depth (opsOf s x)"
  proof
    fix x assume "x \<in> set (opOrder s)"
    with w have "x < ?i" by (simp add: wfState_def)
    with old tu show "kind (opsOf s' x) = kind (opsOf s x) \<and> depth (opsOf s' x) = depth (opsOf s x)"
      by (cases "x = fst u") auto
  qed
  have res: "\<forall>x. x < ?i \<longrightarrow> numResults s' x = numResults s x"
  proof (intro allI impI)
    fix x assume "x < ?i"
    with old tu show "numResults s' x = numResults s x"
      by (cases "x = fst u") (auto simp: numResults_def)
  qed
  have nn: "next_id s \<le> next_id s'" using n' lt by simp
  from memoInv_fresh[OF mi r j m hm' hmb nn res]
  have mi': "memoInv s' hm'" and mono: "\<forall>v g. hm v = Some g \<longrightarrow> hm' v = Some g" by blast+
  have hv: "hm' (OpResult r j) = Some (n2 + 2 * j)" using hm' j by simp
  have sub: "set (opOrder s) \<subseteq> set (opOrder s')" by (auto simp: o' set_insertBefore)
  have cnt: "headAtTop s' \<and> length (moduleInitializers s') = Suc (length (moduleInitializers s)) \<and>
               length (moduleGlobals s') = length (moduleGlobals s) + ?N" if h: "headAtTop s"
  proof -
    from t obtain f rest where fr: "opOrder s = f # rest" by (cases "opOrder s") auto
    with h have d0: "depth (opsOf s (hd (opOrder s))) = 0" by (simp add: headAtTop_def)
    have gl0: "\<forall>p. p < ?N \<longrightarrow> kind (opsOf s' (n2 + 2 * p)) = GlobalOp ''hoisted'' False (results (opsOf s r) ! p) Private
        \<and> depth (opsOf s' (n2 + 2 * p)) = 0"
      using gls d0 by simp
    let ?PI = "\<lambda>x. kind (opsOf s' x) = InitializerOp \<and> depth (opsOf s' x) = 0"
    let ?PG = "\<lambda>x. isGlobalKind (kind (opsOf s' x)) \<and> depth (opsOf s' x) = 0"
    have i1: "filter ?PI ?G = []" using gl0 by (intro filter_none) auto
    have i2: "filter ?PI (insertBefore (fst u) [?l] (opOrder s)) = moduleInitializers s"
    proof -
      have "filter ?PI (insertBefore (fst u) [?l] (opOrder s)) = filter ?PI (opOrder s)"
        by (rule filter_insertBefore) (simp add: ld)
      also have "\<dots> = moduleInitializers s"
        unfolding moduleInitializers_def using kdo by (intro filter_same) auto
      finally show ?thesis .
    qed
    have i3: "filter ?PI [Suc ?i..<n2] = []" using bdy by (intro filter_none) auto
    have i4: "filter ?PI ?B = []" using gls by (intro filter_none) auto
    have mi1: "moduleInitializers s' = moduleInitializers s @ [?i]"
      unfolding moduleInitializers_def[of s'] o' by (simp add: i1 i2 i3 i4 ini ret)
    have g1: "filter ?PG ?G = ?G" using gl0 by (intro filter_all) (auto simp: isGlobalKind_def)
    have g2: "filter ?PG (insertBefore (fst u) [?l] (opOrder s)) = moduleGlobals s"
    proof -
      have "filter ?PG (insertBefore (fst u) [?l] (opOrder s)) = filter ?PG (opOrder s)"
        by (rule filter_insertBefore) (simp add: ld isGlobalKind_def)
      also have "\<dots> = moduleGlobals s"
        unfolding moduleGlobals_def using kdo by (intro filter_same) auto
      finally show ?thesis .
    qed
    have g3: "filter ?PG [Suc ?i..<n2] = []" using bdy by (intro filter_none) auto
    have g4: "filter ?PG ?B = []" using gls by (intro filter_none) auto
    have g5: "\<not> ?PG ?i" "\<not> ?PG (n2 + 2 * ?N)" by (simp_all add: ini ret isGlobalKind_def)
    have mg1: "moduleGlobals s' = ?G @ moduleGlobals s"
      unfolding moduleGlobals_def[of s'] o' by (simp add: g1 g2 g3 g4 g5)
    from j obtain N' where N': "?N = Suc N'" by (cases ?N) auto
    have "hd (opOrder s') = n2" unfolding o' N' by (simp add: upt_rec)
    moreover have "opOrder s' \<noteq> []" unfolding o' by simp
    moreover have "depth (opsOf s' n2) = 0" using gl0 j by (metis add_0_right less_nat_zero_code mult_0_right not_gr_zero)
    ultimately have "headAtTop s'" unfolding headAtTop_def by (cases "opOrder s'") auto
    with mi1 mg1 show ?thesis by simp
  qed
  have "hoisted u r j (s, hm) (s', hm') ?l (n2 + 2 * j)"
    unfolding hoisted_def fst_conv snd_conv
    using w' mi' n' lt old tu ld hv mono sub cnt m by simp
  with run show ?thesis by blast
qed

lemma hoist_step:
  assumes w: "wfState s" and mi: "memoInv s hm" and t: "fst u \<in> set (opOrder s)"
    and v: "operandGet s u = OpResult r j" and r: "r < next_id s" and j: "j < numResults s r"
  shows "\<exists>s' hm' l g. hoistConstExpr env u (s, hm) = Inr (s', hm') \<and>
            hoisted u r j (s, hm) (s', hm') l g"
proof (cases "hm (OpResult r j)")
  case None
  from hoist_step_fresh[where hm=hm and env=env, OF w mi t v r j None] show ?thesis .
next
  case (Some g)
  from hoist_step_reuse[where hm=hm and env=env, OF w mi t v Some] show ?thesis by blast
qed

lemma sameShape_refl: "sameShape s s"
  by (simp add: sameShape_def)

lemma sameShape_trans: "sameShape s s1 \<Longrightarrow> sameShape s1 s2 \<Longrightarrow> sameShape s s2"
proof -
  assume a: "sameShape s s1" and b: "sameShape s1 s2"
  have n: "next_id s \<le> next_id s1" "next_id s1 \<le> next_id s2" using a b by (simp_all add: sameShape_def)
  have "kind (opsOf s2 x) = kind (opsOf s x) \<and> results (opsOf s2 x) = results (opsOf s x) \<and>
         depth (opsOf s2 x) = depth (opsOf s x) \<and>
         length (operands (opsOf s2 x)) = length (operands (opsOf s x))" if "x < next_id s" for x
  proof -
    from that n have "x < next_id s1" by simp
    with a b that show ?thesis by (simp add: sameShape_def)
  qed
  moreover have "set (opOrder s) \<subseteq> set (opOrder s2)" using a b by (auto simp: sameShape_def)
  ultimately show ?thesis using n by (simp add: sameShape_def)
qed

lemma keeps_refl: "keeps U s s"
  by (simp add: keeps_def)

lemma keeps_trans:
  "keeps U s s1 \<Longrightarrow> keeps V s1 s2 \<Longrightarrow> next_id s \<le> next_id s1 \<Longrightarrow> keeps (U \<union> V) s s2"
proof -
  assume a: "keeps U s s1" and b: "keeps V s1 s2" and n: "next_id s \<le> next_id s1"
  have "operands (opsOf s2 x) ! k = operands (opsOf s x) ! k" if "x < next_id s" "(x, k) \<notin> U \<union> V" for x k
  proof -
    from that n have "x < next_id s1" by simp
    with b that have "operands (opsOf s2 x) ! k = operands (opsOf s1 x) ! k" by (simp add: keeps_def)
    with a that show ?thesis by (simp add: keeps_def)
  qed
  then show ?thesis by (simp add: keeps_def)
qed

lemma keeps_mono: "keeps U s s' \<Longrightarrow> U \<subseteq> V \<Longrightarrow> keeps V s s'"
  unfolding keeps_def by blast

lemma hoisted_sameShape:
  assumes "hoisted u r j (s, hm) (s', hm') l g"
  shows "sameShape s s'"
proof -
  from assms have n: "next_id s \<le> l" "next_id s' = Suc l"
    and sub: "set (opOrder s) \<subseteq> set (opOrder s')"
    and old: "\<forall>x. x < next_id s \<and> x \<noteq> fst u \<longrightarrow> opsOf s' x = opsOf s x"
    and tu: "opsOf s' (fst u) = (opsOf s (fst u))
         \<lparr>operands := (operands (opsOf s (fst u)))[snd u := OpResult l 0]\<rparr>"
    by (simp_all add: hoisted_def)
  have "kind (opsOf s' x) = kind (opsOf s x) \<and> results (opsOf s' x) = results (opsOf s x) \<and>
         depth (opsOf s' x) = depth (opsOf s x) \<and>
         length (operands (opsOf s' x)) = length (operands (opsOf s x))" if "x < next_id s" for x
    using that old tu by (cases "x = fst u") auto
  with n sub show ?thesis by (simp add: sameShape_def)
qed

lemma hoisted_keeps:
  assumes "hoisted u r j (s, hm) (s', hm') l g"
  shows "keeps {u} s s'"
proof -
  from assms have old: "\<forall>x. x < next_id s \<and> x \<noteq> fst u \<longrightarrow> opsOf s' x = opsOf s x"
    and tu: "opsOf s' (fst u) = (opsOf s (fst u))
         \<lparr>operands := (operands (opsOf s (fst u)))[snd u := OpResult l 0]\<rparr>"
    by (simp_all add: hoisted_def)
  have "operands (opsOf s' x) ! k = operands (opsOf s x) ! k" if "x < next_id s" "(x, k) \<noteq> u" for x k
  proof (cases "x = fst u")
    case True
    with that have "k \<noteq> snd u" by (cases u) auto
    with tu True show ?thesis by simp
  next
    case False
    with that old show ?thesis by simp
  qed
  then show ?thesis by (simp add: keeps_def)
qed

lemma hoisted_operand:
  assumes "hoisted u r j (s, hm) (s', hm') l g" and "snd u < length (operands (opsOf s (fst u)))"
  shows "operandGet s' u = OpResult l 0"
  using assms by (simp add: hoisted_def operandGet_def)

lemma usesDone_skip:
  assumes "wfState s" "memoInv s hm"
  shows "usesDone env [] r j (s, hm) (s, hm)"
  using assms by (simp add: usesDone_def sameShape_refl keeps_refl)

lemma hoistUses_spec:
  "wfState s \<Longrightarrow> memoInv s hm \<Longrightarrow> r < next_id s \<Longrightarrow> j < numResults s r \<Longrightarrow> distinct us \<Longrightarrow>
   \<forall>u \<in> set us. fst u \<in> set (opOrder s) \<and> snd u < length (operands (opsOf s (fst u))) \<and>
                operandGet s u = OpResult r j \<Longrightarrow>
   \<exists>sh'. hoistUses env us (s, hm) = Inr sh' \<and> usesDone env us r j (s, hm) sh'"
proof (induction us arbitrary: s hm)
  case Nil
  then show ?case by (simp add: usesDone_skip)
next
  case (Cons u us)
  have w: "wfState s" and mi: "memoInv s hm" and r: "r < next_id s" and j: "j < numResults s r"
    using Cons.prems by blast+
  have d: "distinct us" and un: "u \<notin> set us" using Cons.prems(5) by simp_all
  have uv: "fst u \<in> set (opOrder s)" "snd u < length (operands (opsOf s (fst u)))"
    "operandGet s u = OpResult r j" using Cons.prems(6) by simp_all
  have rest: "\<forall>u' \<in> set us. fst u' \<in> set (opOrder s) \<and> snd u' < length (operands (opsOf s (fst u'))) \<and>
                operandGet s u' = OpResult r j" using Cons.prems(6) by simp
  show ?case
  proof (cases "isEscape env u")
    case False
    then have e: "hoistUses env (u # us) (s, hm) = hoistUses env us (s, hm)"
      by (auto simp: isEscape_def)
    from False have f: "filter (isEscape env) (u # us) = filter (isEscape env) us" by simp
    from Cons.IH[OF w mi r j d rest] obtain sh' where
      "hoistUses env us (s, hm) = Inr sh'" "usesDone env us r j (s, hm) sh'" by blast
    then show ?thesis unfolding e usesDone_def f by blast
  next
    case True
    from hoist_step[where hm=hm and env=env, OF w mi uv(1) uv(3) r j]
    obtain s1 hm1 l g where run1: "hoistConstExpr env u (s, hm) = Inr (s1, hm1)"
      and h: "hoisted u r j (s, hm) (s1, hm1) l g" by blast
    have ss1: "sameShape s s1" using h by (rule hoisted_sameShape)
    have k1: "keeps {u} s s1" using h by (rule hoisted_keeps)
    have op1: "operandGet s1 u = OpResult l 0" using h uv(2) by (rule hoisted_operand)
    from h have w1: "wfState s1" and mi1: "memoInv s1 hm1" and nl: "next_id s \<le> l" "next_id s1 = Suc l"
      and kl: "kind (opsOf s1 l) = GlobalLoadOp g" and hv1: "hm1 (OpResult r j) = Some g"
      and mono1: "\<forall>v' g'. hm v' = Some g' \<longrightarrow> hm1 v' = Some g'"
      and cnt1: "headAtTop s \<longrightarrow> headAtTop s1 \<and>
         (if hm (OpResult r j) = None
          then length (moduleInitializers s1) = Suc (length (moduleInitializers s)) \<and>
               length (moduleGlobals s1) = length (moduleGlobals s) + numResults s r
          else hm1 = hm \<and> moduleInitializers s1 = moduleInitializers s \<and>
               moduleGlobals s1 = moduleGlobals s)"
      unfolding hoisted_def fst_conv snd_conv by blast+
    have r1: "r < next_id s1" using r nl by simp
    have j1: "j < numResults s1 r" using j r ss1 by (simp add: sameShape_def numResults_def)
    have rest1: "\<forall>u' \<in> set us. fst u' \<in> set (opOrder s1) \<and> snd u' < length (operands (opsOf s1 (fst u'))) \<and>
                operandGet s1 u' = OpResult r j"
    proof
      fix u' assume u': "u' \<in> set us"
      with rest have a: "fst u' \<in> set (opOrder s)" "snd u' < length (operands (opsOf s (fst u')))"
        "operandGet s u' = OpResult r j" by simp_all
      from a(1) w have lt: "fst u' < next_id s" by (simp add: wfState_def)
      from u' un have ne: "u' \<noteq> u" by auto
      have "operands (opsOf s1 (fst u')) ! snd u' = operands (opsOf s (fst u')) ! snd u'"
        using k1 lt ne unfolding keeps_def by (metis prod.collapse singletonD)
      with a(3) have "operandGet s1 u' = OpResult r j" by (simp add: operandGet_def)
      with a lt ss1 show "fst u' \<in> set (opOrder s1) \<and> snd u' < length (operands (opsOf s1 (fst u'))) \<and>
                operandGet s1 u' = OpResult r j"
        by (auto simp: sameShape_def)
    qed
    from Cons.IH[OF w1 mi1 r1 j1 d rest1] obtain sh' where
      run2: "hoistUses env us (s1, hm1) = Inr sh'" and ud: "usesDone env us r j (s1, hm1) sh'" by blast
    obtain s' hm' where sh': "sh' = (s', hm')" by (cases sh')
    let ?E = "filter (isEscape env) us"
    from ud have w': "wfState s'" and mi': "memoInv s' hm'" and ss2: "sameShape s1 s'"
      and k2: "keeps (set ?E) s1 s'"
      and mono2: "\<forall>v g. hm1 v = Some g \<longrightarrow> hm' v = Some g"
      and same2: "?E = [] \<longrightarrow> (s', hm') = (s1, hm1)"
      and ld2: "?E \<noteq> [] \<longrightarrow>
         (\<exists>g. hm' (OpResult r j) = Some g \<and>
              (\<forall>u \<in> set ?E. \<exists>l. next_id s1 \<le> l \<and> l < next_id s' \<and>
                  operandGet s' u = OpResult l 0 \<and> kind (opsOf s' l) = GlobalLoadOp g))"
      and inj2: "inj_on (operandGet s') (set ?E)"
      and cnt2: "headAtTop s1 \<longrightarrow> headAtTop s' \<and>
         length (moduleInitializers s') = length (moduleInitializers s1) +
            (if ?E \<noteq> [] \<and> hm1 (OpResult r j) = None then 1 else 0) \<and>
         length (moduleGlobals s') = length (moduleGlobals s1) +
            (if ?E \<noteq> [] \<and> hm1 (OpResult r j) = None then numResults s1 r else 0)"
      unfolding usesDone_def sh' fst_conv snd_conv by blast+
    have run: "hoistUses env (u # us) (s, hm) = Inr (s', hm')"
      using True run1 run2 sh' by (simp add: isEscape_def)
    have f: "filter (isEscape env) (u # us) = u # ?E" using True by simp
    have ss: "sameShape s s'" using ss1 ss2 by (rule sameShape_trans)
    have n12: "next_id s1 \<le> next_id s'" using ss2 by (simp add: sameShape_def)
    have kk: "keeps (set (u # ?E)) s s'"
      using keeps_trans[OF k1 k2] nl by simp
    have mono: "\<forall>v g. hm v = Some g \<longrightarrow> hm' v = Some g" using mono1 mono2 by blast
    have hv': "hm' (OpResult r j) = Some g" using hv1 mono2 by blast
    have "fst u < next_id s" using uv(1) w by (simp add: wfState_def)
    then have ult: "fst u < next_id s1" using nl by simp
    have unE: "u \<notin> set ?E" using un by simp
    have opu: "operandGet s' u = OpResult l 0"
    proof -
      have "operands (opsOf s' (fst u)) ! snd u = operands (opsOf s1 (fst u)) ! snd u"
        using k2 ult unE unfolding keeps_def by (metis prod.collapse)
      with op1 show ?thesis by (simp add: operandGet_def)
    qed
    have kl': "kind (opsOf s' l) = GlobalLoadOp g"
      using ss2 kl nl by (simp add: sameShape_def)
    have lds: "\<forall>u' \<in> set (u # ?E). \<exists>l'. next_id s \<le> l' \<and> l' < next_id s' \<and>
                  operandGet s' u' = OpResult l' 0 \<and> kind (opsOf s' l') = GlobalLoadOp g"
    proof
      fix u' assume "u' \<in> set (u # ?E)"
      then consider "u' = u" | "u' \<in> set ?E" by auto
      then show "\<exists>l'. next_id s \<le> l' \<and> l' < next_id s' \<and>
                  operandGet s' u' = OpResult l' 0 \<and> kind (opsOf s' l') = GlobalLoadOp g"
      proof cases
        case 1
        with opu kl' nl n12 show ?thesis by auto
      next
        case 2
        then have "?E \<noteq> []" by (metis empty_iff empty_set)
        with ld2 obtain g2 where g2: "hm' (OpResult r j) = Some g2"
          "\<forall>u \<in> set ?E. \<exists>l. next_id s1 \<le> l \<and> l < next_id s' \<and>
                  operandGet s' u = OpResult l 0 \<and> kind (opsOf s' l) = GlobalLoadOp g2" by blast
        with hv' have "g2 = g" by simp
        with g2(2) 2 nl show ?thesis by (metis Suc_leD le_trans)
      qed
    qed
    have inj: "inj_on (operandGet s') (set (u # ?E))"
    proof -
      have "operandGet s' u \<notin> operandGet s' ` set ?E"
      proof
        assume "operandGet s' u \<in> operandGet s' ` set ?E"
        then obtain u' where u': "u' \<in> set ?E" "operandGet s' u' = OpResult l 0" using opu by auto
        then have "?E \<noteq> []" by (metis empty_iff empty_set)
        with ld2 u'(1) obtain l' where "next_id s1 \<le> l'" "operandGet s' u' = OpResult l' 0" by blast
        with u'(2) nl show False by simp
      qed
      with inj2 show ?thesis by auto
    qed
    have cnt: "headAtTop s \<longrightarrow> headAtTop s' \<and>
         length (moduleInitializers s') = length (moduleInitializers s) +
            (if u # ?E \<noteq> [] \<and> hm (OpResult r j) = None then 1 else 0) \<and>
         length (moduleGlobals s') = length (moduleGlobals s) +
            (if u # ?E \<noteq> [] \<and> hm (OpResult r j) = None then numResults s r else 0)"
      using cnt1 cnt2 hv1 by (auto split: if_splits)
    have "usesDone env (u # us) r j (s, hm) (s', hm')"
      unfolding usesDone_def f fst_conv snd_conv
      using w' mi' ss kk mono hv' lds inj cnt by blast
    with run show ?thesis by blast
  qed
qed

lemma usesIn_mem:
  "u \<in> set (usesIn s v t) \<longleftrightarrow>
     (fst u = t \<and> snd u < length (operands (opsOf s t)) \<and> operands (opsOf s t) ! snd u = v)"
  by (cases u) (auto simp: usesIn_def)

lemma distinct_usesIn: "distinct (usesIn s v t)"
  by (simp add: usesIn_def distinct_map inj_on_def)

lemma getUses_mem:
  "u \<in> set (getUses s v) \<longleftrightarrow>
     (fst u \<in> set (opOrder s) \<and> snd u < length (operands (opsOf s (fst u))) \<and> operandGet s u = v)"
  by (auto simp: getUses_def usesIn_mem operandGet_def)

lemma distinct_concat_usesIn: "distinct xs \<Longrightarrow> distinct (concat (map (usesIn s v) xs))"
proof (induction xs)
  case Nil
  then show ?case by simp
next
  case (Cons a xs)
  have "set (usesIn s v a) \<inter> set (concat (map (usesIn s v) xs)) = {}"
  proof (rule ccontr)
    assume "set (usesIn s v a) \<inter> set (concat (map (usesIn s v) xs)) \<noteq> {}"
    then obtain u where u: "u \<in> set (usesIn s v a)" "u \<in> set (concat (map (usesIn s v) xs))" by blast
    from u(1) have "fst u = a" by (simp add: usesIn_mem)
    moreover from u(2) have "fst u \<in> set xs" by (auto simp: usesIn_mem)
    ultimately show False using Cons.prems by simp
  qed
  with Cons distinct_usesIn[of s v a] show ?case by simp
qed

lemma distinct_getUses: "wfState s \<Longrightarrow> distinct (getUses s v)"
  by (simp add: getUses_def wfState_def distinct_concat_usesIn)

lemma rewrote_refl:
  "wfState s \<Longrightarrow> memoInv s hm \<Longrightarrow> rewrote env (\<lambda>a q. False) (s, hm) (s, hm)"
  unfolding rewrote_def fst_conv snd_conv
  by (intro conjI allI impI) (simp_all add: sameShape_refl split: val.split)

lemma rewrote_trans:
  assumes w: "wfState s"
    and a: "rewrote env V1 (s, hm) (s1, hm1)" and b: "rewrote env V2 (s1, hm1) (s2, hm2)"
    and bound: "\<forall>a q. V2 a q \<longrightarrow> a < next_id s"
  shows "rewrote env (\<lambda>a q. V1 a q \<or> V2 a q) (s, hm) (s2, hm2)"
proof -
  from a have ss1: "sameShape s s1" and m1: "\<forall>v g. hm v = Some g \<longrightarrow> hm1 v = Some g"
    and op1: "\<forall>x k. x \<in> set (opOrder s) \<and> k < length (operands (opsOf s x)) \<longrightarrow>
         (case operands (opsOf s x) ! k of
            OpResult a q \<Rightarrow>
              if V1 a q \<and> isEscape env (x, k)
              then \<exists>l g. next_id s \<le> l \<and> l < next_id s1 \<and>
                     operands (opsOf s1 x) ! k = OpResult l 0 \<and>
                     kind (opsOf s1 l) = GlobalLoadOp g \<and> hm1 (OpResult a q) = Some g
              else operands (opsOf s1 x) ! k = OpResult a q
          | BlockArg a q \<Rightarrow> operands (opsOf s1 x) ! k = BlockArg a q)"
    unfolding rewrote_def fst_conv snd_conv by blast+
  from b have w2: "wfState s2" and mi2: "memoInv s2 hm2" and ss2: "sameShape s1 s2"
    and m2: "\<forall>v g. hm1 v = Some g \<longrightarrow> hm2 v = Some g"
    and op2: "\<forall>x k. x \<in> set (opOrder s1) \<and> k < length (operands (opsOf s1 x)) \<longrightarrow>
         (case operands (opsOf s1 x) ! k of
            OpResult a q \<Rightarrow>
              if V2 a q \<and> isEscape env (x, k)
              then \<exists>l g. next_id s1 \<le> l \<and> l < next_id s2 \<and>
                     operands (opsOf s2 x) ! k = OpResult l 0 \<and>
                     kind (opsOf s2 l) = GlobalLoadOp g \<and> hm2 (OpResult a q) = Some g
              else operands (opsOf s2 x) ! k = OpResult a q
          | BlockArg a q \<Rightarrow> operands (opsOf s2 x) ! k = BlockArg a q)"
    unfolding rewrote_def fst_conv snd_conv by blast+
  have ss: "sameShape s s2" using ss1 ss2 by (rule sameShape_trans)
  have n01: "next_id s \<le> next_id s1" and n12: "next_id s1 \<le> next_id s2"
    using ss1 ss2 by (simp_all add: sameShape_def)
  have mm: "\<forall>v g. hm v = Some g \<longrightarrow> hm2 v = Some g" using m1 m2 by blast
  have ops: "case operands (opsOf s x) ! k of
            OpResult a q \<Rightarrow>
              if (V1 a q \<or> V2 a q) \<and> isEscape env (x, k)
              then \<exists>l g. next_id s \<le> l \<and> l < next_id s2 \<and>
                     operands (opsOf s2 x) ! k = OpResult l 0 \<and>
                     kind (opsOf s2 l) = GlobalLoadOp g \<and> hm2 (OpResult a q) = Some g
              else operands (opsOf s2 x) ! k = OpResult a q
          | BlockArg a q \<Rightarrow> operands (opsOf s2 x) ! k = BlockArg a q"
    if xk: "x \<in> set (opOrder s)" "k < length (operands (opsOf s x))" for x k
  proof -
    from xk(1) w have xlt: "x < next_id s" by (simp add: wfState_def)
    from xk(1) ss1 have x1: "x \<in> set (opOrder s1)" by (auto simp: sameShape_def)
    from xlt ss1 xk(2) have k1: "k < length (operands (opsOf s1 x))" by (simp add: sameShape_def)
    from op1 xk have P1: "case operands (opsOf s x) ! k of
            OpResult a q \<Rightarrow>
              if V1 a q \<and> isEscape env (x, k)
              then \<exists>l g. next_id s \<le> l \<and> l < next_id s1 \<and>
                     operands (opsOf s1 x) ! k = OpResult l 0 \<and>
                     kind (opsOf s1 l) = GlobalLoadOp g \<and> hm1 (OpResult a q) = Some g
              else operands (opsOf s1 x) ! k = OpResult a q
          | BlockArg a q \<Rightarrow> operands (opsOf s1 x) ! k = BlockArg a q" by blast
    from op2 x1 k1 have P2: "case operands (opsOf s1 x) ! k of
            OpResult a q \<Rightarrow>
              if V2 a q \<and> isEscape env (x, k)
              then \<exists>l g. next_id s1 \<le> l \<and> l < next_id s2 \<and>
                     operands (opsOf s2 x) ! k = OpResult l 0 \<and>
                     kind (opsOf s2 l) = GlobalLoadOp g \<and> hm2 (OpResult a q) = Some g
              else operands (opsOf s2 x) ! k = OpResult a q
          | BlockArg a q \<Rightarrow> operands (opsOf s2 x) ! k = BlockArg a q" by blast
    show ?thesis
    proof (cases "operands (opsOf s x) ! k")
      case (BlockArg a q)
      with P1 have "operands (opsOf s1 x) ! k = BlockArg a q" by simp
      with P2 have "operands (opsOf s2 x) ! k = BlockArg a q" by simp
      with BlockArg show ?thesis by simp
    next
      case (OpResult a q)
      show ?thesis
      proof (cases "V1 a q \<and> isEscape env (x, k)")
        case True
        with P1 OpResult obtain l g where l: "next_id s \<le> l" "l < next_id s1"
          "operands (opsOf s1 x) ! k = OpResult l 0" "kind (opsOf s1 l) = GlobalLoadOp g"
          "hm1 (OpResult a q) = Some g" by auto
        from l(1) bound have "\<not> V2 l 0" by (metis not_less)
        with P2 l(3) have e2: "operands (opsOf s2 x) ! k = OpResult l 0" by simp
        from ss2 l(2,4) have k2: "kind (opsOf s2 l) = GlobalLoadOp g" by (simp add: sameShape_def)
        from m2 l(5) have h2: "hm2 (OpResult a q) = Some g" by blast
        from l(2) n12 have "l < next_id s2" by simp
        with l(1) e2 k2 h2 have "\<exists>l g. next_id s \<le> l \<and> l < next_id s2 \<and>
                     operands (opsOf s2 x) ! k = OpResult l 0 \<and>
                     kind (opsOf s2 l) = GlobalLoadOp g \<and> hm2 (OpResult a q) = Some g" by blast
        with True OpResult show ?thesis by simp
      next
        case False
        with P1 OpResult have e1: "operands (opsOf s1 x) ! k = OpResult a q" by auto
        show ?thesis
        proof (cases "V2 a q \<and> isEscape env (x, k)")
          case True
          with P2 e1 obtain l g where l: "next_id s1 \<le> l" "l < next_id s2"
            "operands (opsOf s2 x) ! k = OpResult l 0" "kind (opsOf s2 l) = GlobalLoadOp g"
            "hm2 (OpResult a q) = Some g" by auto
          from l(1) n01 have "next_id s \<le> l" by simp
          with l have "\<exists>l g. next_id s \<le> l \<and> l < next_id s2 \<and>
                     operands (opsOf s2 x) ! k = OpResult l 0 \<and>
                     kind (opsOf s2 l) = GlobalLoadOp g \<and> hm2 (OpResult a q) = Some g" by blast
          with True OpResult show ?thesis by simp
        next
          case F2: False
          with P2 e1 have e2: "operands (opsOf s2 x) ! k = OpResult a q" by auto
          from False F2 have nc: "\<not> ((V1 a q \<or> V2 a q) \<and> isEscape env (x, k))" by blast
          show ?thesis unfolding OpResult val.case using e2 by (simp only: nc if_False)
        qed
      qed
    qed
  qed
  show ?thesis unfolding rewrote_def fst_conv snd_conv
    using w2 mi2 ss mm ops by blast
qed

lemma uses_rewrote:
  assumes w: "wfState s" and ud: "usesDone env (getUses s (OpResult A j)) A j (s, hm) (s', hm')"
  shows "rewrote env (\<lambda>a q. a = A \<and> q = j) (s, hm) (s', hm')"
proof -
  let ?us = "getUses s (OpResult A j)"
  let ?E = "filter (isEscape env) ?us"
  from ud have w': "wfState s'" and mi': "memoInv s' hm'" and ss: "sameShape s s'"
    and kp: "keeps (set ?E) s s'"
    and mono: "\<forall>v g. hm v = Some g \<longrightarrow> hm' v = Some g"
    and ld: "?E \<noteq> [] \<longrightarrow>
         (\<exists>g. hm' (OpResult A j) = Some g \<and>
              (\<forall>u \<in> set ?E. \<exists>l. next_id s \<le> l \<and> l < next_id s' \<and>
                  operandGet s' u = OpResult l 0 \<and> kind (opsOf s' l) = GlobalLoadOp g))"
    unfolding usesDone_def fst_conv snd_conv by blast+
  have ops: "case operands (opsOf s x) ! k of
            OpResult a q \<Rightarrow>
              if (a = A \<and> q = j) \<and> isEscape env (x, k)
              then \<exists>l g. next_id s \<le> l \<and> l < next_id s' \<and>
                     operands (opsOf s' x) ! k = OpResult l 0 \<and>
                     kind (opsOf s' l) = GlobalLoadOp g \<and> hm' (OpResult a q) = Some g
              else operands (opsOf s' x) ! k = OpResult a q
          | BlockArg a q \<Rightarrow> operands (opsOf s' x) ! k = BlockArg a q"
    if xk: "x \<in> set (opOrder s)" "k < length (operands (opsOf s x))" for x k
  proof -
    from xk(1) w have xlt: "x < next_id s" by (simp add: wfState_def)
    have unch: "(x, k) \<notin> set ?E \<Longrightarrow> operands (opsOf s' x) ! k = operands (opsOf s x) ! k"
      using kp xlt by (simp add: keeps_def)
    show ?thesis
    proof (cases "operands (opsOf s x) ! k = OpResult A j \<and> isEscape env (x, k)")
      case True
      with xk have inE: "(x, k) \<in> set ?E" by (simp add: getUses_mem operandGet_def)
      then have "?E \<noteq> []" by (metis empty_iff empty_set)
      with ld inE obtain g l where "hm' (OpResult A j) = Some g" "next_id s \<le> l" "l < next_id s'"
        "operandGet s' (x, k) = OpResult l 0" "kind (opsOf s' l) = GlobalLoadOp g" by blast
      then have "\<exists>l g. next_id s \<le> l \<and> l < next_id s' \<and>
                     operands (opsOf s' x) ! k = OpResult l 0 \<and>
                     kind (opsOf s' l) = GlobalLoadOp g \<and> hm' (OpResult A j) = Some g"
        by (auto simp: operandGet_def)
      with True show ?thesis by simp
    next
      case False
      then have "(x, k) \<notin> set ?E" by (auto simp: getUses_mem operandGet_def)
      from unch[OF this] have e: "operands (opsOf s' x) ! k = operands (opsOf s x) ! k" .
      show ?thesis
      proof (cases "operands (opsOf s x) ! k")
        case (BlockArg a q)
        with e show ?thesis by simp
      next
        case (OpResult a q)
        with False have nc: "\<not> ((a = A \<and> q = j) \<and> isEscape env (x, k))" by auto
        from e OpResult have "operands (opsOf s' x) ! k = OpResult a q" by simp
        then show ?thesis unfolding OpResult val.case by (simp only: nc if_False)
      qed
    qed
  qed
  show ?thesis unfolding rewrote_def fst_conv snd_conv
    using w' mi' ss mono ops by blast
qed

lemma hoistResults_spec:
  "wfState s \<Longrightarrow> memoInv s hm \<Longrightarrow> A < next_id s \<Longrightarrow> \<forall>j \<in> set js. j < numResults s A \<Longrightarrow>
   \<exists>sh'. hoistResults env A js (s, hm) = Inr sh' \<and>
         rewrote env (\<lambda>a q. a = A \<and> q \<in> set js) (s, hm) sh'"
proof (induction js arbitrary: s hm)
  case Nil
  from rewrote_refl[OF Nil(1,2), of env] show ?case by simp
next
  case (Cons j js)
  have w: "wfState s" and mi: "memoInv s hm" and A: "A < next_id s"
    and j: "j < numResults s A" and js: "\<forall>j \<in> set js. j < numResults s A"
    using Cons.prems by simp_all
  let ?us = "getUses s (OpResult A j)"
  have d: "distinct ?us" using w by (rule distinct_getUses)
  have v: "\<forall>u \<in> set ?us. fst u \<in> set (opOrder s) \<and> snd u < length (operands (opsOf s (fst u))) \<and>
                operandGet s u = OpResult A j" by (simp add: getUses_mem)
  from hoistUses_spec[OF w mi A j d v, of env] obtain sh1 where
    run1: "hoistUses env ?us (s, hm) = Inr sh1" and ud: "usesDone env ?us A j (s, hm) sh1" by blast
  obtain s1 hm1 where sh1: "sh1 = (s1, hm1)" by (cases sh1)
  from uses_rewrote[OF w ud[unfolded sh1]]
  have rw1: "rewrote env (\<lambda>a q. a = A \<and> q = j) (s, hm) (s1, hm1)" .
  then have w1: "wfState s1" and mi1: "memoInv s1 hm1" and ss1: "sameShape s s1"
    unfolding rewrote_def fst_conv snd_conv by blast+
  have A1: "A < next_id s1" using A ss1 by (simp add: sameShape_def)
  have js1: "\<forall>j \<in> set js. j < numResults s1 A"
    using js A ss1 by (simp add: sameShape_def numResults_def)
  from Cons.IH[OF w1 mi1 A1 js1] obtain sh' where
    run2: "hoistResults env A js (s1, hm1) = Inr sh'"
    and rw2: "rewrote env (\<lambda>a q. a = A \<and> q \<in> set js) (s1, hm1) sh'" by blast
  obtain s' hm' where sh': "sh' = (s', hm')" by (cases sh')
  have bound: "\<forall>a q. a = A \<and> q \<in> set js \<longrightarrow> a < next_id s" using A by simp
  from rewrote_trans[OF w rw1 rw2[unfolded sh'] bound]
  have "rewrote env (\<lambda>a q. a = A \<and> q = j \<or> a = A \<and> q \<in> set js) (s, hm) (s', hm')" .
  moreover have "(\<lambda>a q. a = A \<and> q = j \<or> a = A \<and> q \<in> set js) = (\<lambda>a q. a = A \<and> q \<in> set (j # js))"
    by (intro ext) auto
  ultimately have "rewrote env (\<lambda>a q. a = A \<and> q \<in> set (j # js)) (s, hm) (s', hm')" by simp
  moreover have "hoistResults env A (j # js) (s, hm) = Inr (s', hm')"
    using run1 sh1 run2 sh' by simp
  ultimately show ?case by blast
qed

lemma visitOp_spec:
  assumes w: "wfState s" and mi: "memoInv s hm" and A: "A \<in> set (opOrder s)"
  shows "\<exists>sh'. visitOp env A (s, hm) = Inr sh' \<and>
         rewrote env (\<lambda>a q. a = A \<and> isHoistableOp env A \<and> q < numResults s A) (s, hm) sh'"
proof (cases "isHoistableOp env A")
  case False
  then have "visitOp env A (s, hm) = Inr (s, hm)" by (simp add: visitOp_def)
  moreover have "(\<lambda>a q. a = A \<and> isHoistableOp env A \<and> q < numResults s A) = (\<lambda>a q. False)"
    using False by (intro ext) simp
  ultimately show ?thesis using rewrote_refl[OF w mi, of env] by simp
next
  case True
  from A w have Alt: "A < next_id s" by (simp add: wfState_def)
  have "\<forall>j \<in> set [0..<numResults s A]. j < numResults s A" by simp
  from hoistResults_spec[OF w mi Alt this, of env] obtain sh' where
    run: "hoistResults env A [0..<numResults s A] (s, hm) = Inr sh'"
    and rw: "rewrote env (\<lambda>a q. a = A \<and> q \<in> set [0..<numResults s A]) (s, hm) sh'" by blast
  have "(\<lambda>a q. a = A \<and> q \<in> set [0..<numResults s A]) =
        (\<lambda>a q. a = A \<and> isHoistableOp env A \<and> q < numResults s A)"
    using True by (intro ext) simp
  with rw have "rewrote env (\<lambda>a q. a = A \<and> isHoistableOp env A \<and> q < numResults s A) (s, hm) sh'"
    by simp
  moreover have "visitOp env A (s, hm) = Inr sh'" using True run by (simp add: visitOp_def)
  ultimately show ?thesis by blast
qed

lemma walk_spec:
  "wfState s \<Longrightarrow> memoInv s hm \<Longrightarrow> set xs \<subseteq> set (opOrder s) \<Longrightarrow>
   \<exists>sh'. walk env xs (s, hm) = Inr sh' \<and>
         rewrote env (\<lambda>a q. a \<in> set xs \<and> isHoistableOp env a \<and> q < numResults s a) (s, hm) sh'"
proof (induction xs arbitrary: s hm)
  case Nil
  from rewrote_refl[OF Nil(1,2), of env] show ?case by simp
next
  case (Cons A xs)
  have w: "wfState s" and mi: "memoInv s hm" and A: "A \<in> set (opOrder s)"
    and xs: "set xs \<subseteq> set (opOrder s)" using Cons.prems by simp_all
  from visitOp_spec[OF w mi A, of env] obtain sh1 where
    run1: "visitOp env A (s, hm) = Inr sh1"
    and rw1: "rewrote env (\<lambda>a q. a = A \<and> isHoistableOp env A \<and> q < numResults s A) (s, hm) sh1" by blast
  obtain s1 hm1 where sh1: "sh1 = (s1, hm1)" by (cases sh1)
  from rw1 have w1: "wfState s1" and mi1: "memoInv s1 hm1" and ss1: "sameShape s s1"
    unfolding rewrote_def sh1 fst_conv snd_conv by blast+
  have xs1: "set xs \<subseteq> set (opOrder s1)" using xs ss1 by (auto simp: sameShape_def)
  from Cons.IH[OF w1 mi1 xs1] obtain sh' where
    run2: "walk env xs (s1, hm1) = Inr sh'"
    and rw2: "rewrote env (\<lambda>a q. a \<in> set xs \<and> isHoistableOp env a \<and> q < numResults s1 a) (s1, hm1) sh'"
    by blast
  obtain s' hm' where sh': "sh' = (s', hm')" by (cases sh')
  have lt: "\<forall>a \<in> set xs. a < next_id s" using xs w by (auto simp: wfState_def)
  have bound: "\<forall>a q. a \<in> set xs \<and> isHoistableOp env a \<and> q < numResults s1 a \<longrightarrow> a < next_id s"
    using lt by simp
  from rewrote_trans[OF w rw1[unfolded sh1] rw2[unfolded sh'] bound]
  have "rewrote env (\<lambda>a q. (a = A \<and> isHoistableOp env A \<and> q < numResults s A) \<or>
          (a \<in> set xs \<and> isHoistableOp env a \<and> q < numResults s1 a)) (s, hm) (s', hm')" .
  moreover have "(\<lambda>a q. (a = A \<and> isHoistableOp env A \<and> q < numResults s A) \<or>
          (a \<in> set xs \<and> isHoistableOp env a \<and> q < numResults s1 a)) =
        (\<lambda>a q. a \<in> set (A # xs) \<and> isHoistableOp env a \<and> q < numResults s a)"
  proof (intro ext)
    fix a q
    have "a \<in> set xs \<Longrightarrow> numResults s1 a = numResults s a"
      using lt ss1 by (simp add: sameShape_def numResults_def)
    then show "((a = A \<and> isHoistableOp env A \<and> q < numResults s A) \<or>
          (a \<in> set xs \<and> isHoistableOp env a \<and> q < numResults s1 a)) =
        (a \<in> set (A # xs) \<and> isHoistableOp env a \<and> q < numResults s a)" by auto
  qed
  ultimately have "rewrote env (\<lambda>a q. a \<in> set (A # xs) \<and> isHoistableOp env a \<and> q < numResults s a)
      (s, hm) (s', hm')" by simp
  moreover have "walk env (A # xs) (s, hm) = Inr (s', hm')" using run1 sh1 run2 sh' by simp
  ultimately show ?case by blast
qed


section \<open>Lemmas on the dead-code sweeper\<close>









section \<open>Handles that are not allocated are not written\<close>













section \<open>The walk as a sequence of calls of hoistConstExpr\<close>






section \<open>Lemmas on the order of globals and loads\<close>



























section \<open>A module with nothing to hoist\<close>

lemma walk_no_hoistable:
  "\<forall>i \<in> set xs. \<not> isHoistableOp env i \<Longrightarrow> walk env xs sh = Inr sh"
  by (induction xs) (simp_all add: visitOp_def)

lemma sweep_nothing_dead:
  "\<forall>c \<in> set ws. c \<in> set (opOrder s) \<and> \<not> use_empty s c \<Longrightarrow> sweep ws (mc, a, s) = Inr (mc, a, s)"
  by (induction ws) simp_all

text \<open>
  C9, as the code has it. When no operation of the module is a hoistable constant
  expression, the walk changes nothing (no global, initializer or load is created, no operand
  is rewritten and the map stays empty), and the result of the pass is the result of
  \<open>cleanupDeadOps\<close> on the unchanged input. The pass is the identity when, in addition,
  every constant-expr operation of the analysis is in the module and has a use.
\<close>

theorem nothing_hoistable_walk_identity:
  assumes "\<forall>i \<in> set (opOrder s). \<not> isHoistableOp env i"
  shows "walk env (opOrder s) (s, Map.empty) = Inr (s, Map.empty) \<and>
         runOnOperation env s =
           (case cleanupDeadOps env s of Inl e \<Rightarrow> Inl e | Inr (allOps, s') \<Rightarrow> Inr s') \<and>
         ((\<forall>c \<in> set (constExprOperations env). c \<in> set (opOrder s) \<and> \<not> use_empty s c) \<longrightarrow>
            runOnOperation env s = Inr s)"
proof -
  have w: "walk env (opOrder s) (s, Map.empty) = Inr (s, Map.empty)"
    using assms by (rule walk_no_hoistable)
  have r: "runOnOperation env s =
           (case cleanupDeadOps env s of Inl e \<Rightarrow> Inl e | Inr (allOps, s') \<Rightarrow> Inr s')"
    by (simp add: runOnOperation_def w)
  have "runOnOperation env s = Inr s"
    if a: "\<forall>c \<in> set (constExprOperations env). c \<in> set (opOrder s) \<and> \<not> use_empty s c"
  proof -
    from a have "sweep (remdups (constExprOperations env)) (False, remdups (constExprOperations env), s)
         = Inr (False, remdups (constExprOperations env), s)"
      by (intro sweep_nothing_dead) simp
    then have "cleanupDeadOps env s = Inr (remdups (constExprOperations env), s)"
      by (simp add: cleanupDeadOps_def)
    with r show ?thesis by simp
  qed
  with w r show ?thesis by blast
qed

theorem nothing_hoistable_walk_identity_witness:
  "list_all (\<lambda>i. \<not> isHoistableOp envDead i) (opOrder progLive) \<and>
   list_all (\<lambda>c. c \<in> set (opOrder progLive) \<and> \<not> use_empty progLive c) (constExprOperations envDead) \<and>
   walk envDead (opOrder progLive) (progLive, Map.empty) = Inr (progLive, Map.empty) \<and>
   runOnOperation envDead progLive = Inr progLive"
proof -
  have h: "\<forall>i \<in> set (opOrder progLive). \<not> isHoistableOp envDead i"
    by code_simp
  have l: "\<forall>c \<in> set (constExprOperations envDead). c \<in> set (opOrder progLive) \<and> \<not> use_empty progLive c"
    by code_simp
  from nothing_hoistable_walk_identity [OF h] h l show ?thesis
    unfolding list_all_iff by blast
qed

text \<open>
  C9 as it is written fails: in \<open>progDead\<close> nothing is hoistable, and the pass erases the
  constant that has no use.
\<close>

theorem nothing_hoistable_not_identity:
  "list_all (\<lambda>i. \<not> isHoistableOp envDead i) (opOrder progDead) \<and>
   (case runOnOperation envDead progDead of Inl e \<Rightarrow> [] | Inr s' \<Rightarrow> opOrder s') = [0, 2] \<and>
   runOnOperation envDead progDead \<noteq> Inr progDead"
proof -
  have h: "list_all (\<lambda>i. \<not> isHoistableOp envDead i) (opOrder progDead)"
    by code_simp
  have r: "(case runOnOperation envDead progDead of Inl e \<Rightarrow> [] | Inr s' \<Rightarrow> opOrder s') = [0, 2]"
    by code_simp
  have "opOrder progDead = [0, 1, 2]" by (simp add: progDead_def)
  with r have "runOnOperation envDead progDead \<noteq> Inr progDead" by auto
  with r h show ?thesis by simp
qed

section \<open>The dead-code sweeper\<close>



section \<open>What one call of hoistConstExpr changes\<close>




section \<open>Which uses the walk rewrites\<close>

text \<open>
  C2. Let operand \<open>k\<close> of an operation \<open>T\<close> of a well-formed module hold result \<open>j\<close> of
  an operation \<open>A\<close> of the module. The walk returns without a failed assertion, and
  afterwards the operand holds the result of a load, created by the pass, of the global that
  the map holds for the value, if \<open>A\<close> is constant-expr, not a root and accepted as a
  hoistable leaf, \<open>T\<close> is not both constant-expr and an accepted leaf, and the policy accepts
  the operand; otherwise the operand still holds the result of \<open>A\<close>: the edge is not
  touched, in particular when \<open>T\<close> is itself an accepted constant-expr leaf.
\<close>

theorem escape_rewritten_iff:
  assumes w: "wfState s0"
    and T: "T \<in> set (opOrder s0)" and k: "k < length (operands (opsOf s0 T))"
    and v: "operands (opsOf s0 T) ! k = OpResult A j"
    and A: "A \<in> set (opOrder s0)" and j: "j < numResults s0 A"
  shows "\<exists>s' hm'. walk env (opOrder s0) (s0, Map.empty) = Inr (s', hm') \<and>
           (if isHoistableOp env A \<and> \<not> isConstExprLeaf env T \<and>
               isHoistableConstExprConsumingOperand env (T, k)
            then \<exists>l g. next_id s0 \<le> l \<and> operands (opsOf s' T) ! k = OpResult l 0 \<and>
                   kind (opsOf s' l) = GlobalLoadOp g \<and> hm' (OpResult A j) = Some g
            else operands (opsOf s' T) ! k = OpResult A j)"
proof -
  from walk_spec[OF w memoInv_empty, of "opOrder s0" env] obtain sh' where
    run: "walk env (opOrder s0) (s0, Map.empty) = Inr sh'"
    and rw: "rewrote env (\<lambda>a q. a \<in> set (opOrder s0) \<and> isHoistableOp env a \<and> q < numResults s0 a)
               (s0, Map.empty) sh'" by auto
  obtain s' hm' where sh': "sh' = (s', hm')" by (cases sh')
  from rw T k have "case operands (opsOf s0 T) ! k of
            OpResult a q \<Rightarrow>
              if (a \<in> set (opOrder s0) \<and> isHoistableOp env a \<and> q < numResults s0 a) \<and> isEscape env (T, k)
              then \<exists>l g. next_id s0 \<le> l \<and> l < next_id s' \<and>
                     operands (opsOf s' T) ! k = OpResult l 0 \<and>
                     kind (opsOf s' l) = GlobalLoadOp g \<and> hm' (OpResult a q) = Some g
              else operands (opsOf s' T) ! k = OpResult a q
          | BlockArg a q \<Rightarrow> operands (opsOf s' T) ! k = BlockArg a q"
    unfolding rewrote_def sh' fst_conv snd_conv by blast
  then have "if isHoistableOp env A \<and> isEscape env (T, k)
              then \<exists>l g. next_id s0 \<le> l \<and> l < next_id s' \<and>
                     operands (opsOf s' T) ! k = OpResult l 0 \<and>
                     kind (opsOf s' l) = GlobalLoadOp g \<and> hm' (OpResult A j) = Some g
              else operands (opsOf s' T) ! k = OpResult A j"
    using v A j by simp
  then have "if isHoistableOp env A \<and> \<not> isConstExprLeaf env T \<and>
               isHoistableConstExprConsumingOperand env (T, k)
            then \<exists>l g. next_id s0 \<le> l \<and> operands (opsOf s' T) ! k = OpResult l 0 \<and>
                   kind (opsOf s' l) = GlobalLoadOp g \<and> hm' (OpResult A j) = Some g
            else operands (opsOf s' T) ! k = OpResult A j"
    by (auto simp: isEscape_def split: if_splits)
  with run sh' show ?thesis by blast
qed

theorem escape_rewritten_iff_witness:
  "\<exists>s' hm' l g. walk envA (opOrder progA) (progA, Map.empty) = Inr (s', hm') \<and>
      next_id progA \<le> l \<and> operands (opsOf s' 4) ! 0 = OpResult l 0 \<and>
      kind (opsOf s' l) = GlobalLoadOp g \<and> hm' (OpResult 3 0) = Some g"
proof -
  have h1: "wfState progA" by code_simp
  have h2: "4 \<in> set (opOrder progA)" by code_simp
  have h3: "0 < length (operands (opsOf progA 4))" by code_simp
  have h4: "operands (opsOf progA 4) ! 0 = OpResult 3 0" by code_simp
  have h5: "3 \<in> set (opOrder progA)" by code_simp
  have h6: "0 < numResults progA 3" by code_simp
  have c: "isHoistableOp envA 3 \<and> \<not> isConstExprLeaf envA 4 \<and>
               isHoistableConstExprConsumingOperand envA (4, 0)" by code_simp
  from escape_rewritten_iff[OF h1 h2 h3 h4 h5 h6, of envA] c show ?thesis by auto
qed

section \<open>The map holds all results of an operation or none\<close>



section \<open>One global for a value that escapes more than once\<close>

text \<open>
  C1. Let \<open>us\<close> be a snapshot of uses of the value \<open>v\<close>, result \<open>j\<close> of \<open>r\<close>: distinct
  operands of operations of the module that hold \<open>v\<close>, at least one of them an escape. The
  loop over the snapshot returns; afterwards the map holds one global \<open>g\<close> for \<open>v\<close>, the
  one it held before if it held one; every escape of the snapshot holds the result of a load
  of \<open>g\<close> created by the loop, and different escapes hold results of different loads; and
  the module body has one initializer more and one global more for each result of \<open>r\<close>
  when \<open>v\<close> had no global, and as many initializers and globals as before when it had
  one. So the first escape creates the initializer and the globals, and all later ones
  reuse the global of the map.
\<close>

theorem escapes_share_one_global:
  assumes w: "wfState s" and mi: "memoInv s hm" and top: "headAtTop s"
    and r: "r < next_id s" and j: "j < numResults s r" and d: "distinct us"
    and us: "\<forall>u \<in> set us. fst u \<in> set (opOrder s) \<and> snd u < length (operands (opsOf s (fst u))) \<and>
                operandGet s u = OpResult r j"
    and e: "filter (isEscape env) us \<noteq> []"
  shows "\<exists>s' hm' g. hoistUses env us (s, hm) = Inr (s', hm') \<and>
           hm' (OpResult r j) = Some g \<and> (hm (OpResult r j) = None \<or> hm (OpResult r j) = Some g) \<and>
           (\<forall>u \<in> set (filter (isEscape env) us). \<exists>l. next_id s \<le> l \<and>
               operandGet s' u = OpResult l 0 \<and> kind (opsOf s' l) = GlobalLoadOp g) \<and>
           inj_on (operandGet s') (set (filter (isEscape env) us)) \<and>
           length (moduleInitializers s') = length (moduleInitializers s) +
              (if hm (OpResult r j) = None then 1 else 0) \<and>
           length (moduleGlobals s') = length (moduleGlobals s) +
              (if hm (OpResult r j) = None then numResults s r else 0)"
proof -
  from hoistUses_spec[OF w mi r j d us, of env] obtain sh' where
    run: "hoistUses env us (s, hm) = Inr sh'" and ud: "usesDone env us r j (s, hm) sh'" by blast
  obtain s' hm' where sh': "sh' = (s', hm')" by (cases sh')
  let ?E = "filter (isEscape env) us"
  from ud e top have mono: "\<forall>v g. hm v = Some g \<longrightarrow> hm' v = Some g"
    and ld: "\<exists>g. hm' (OpResult r j) = Some g \<and>
              (\<forall>u \<in> set ?E. \<exists>l. next_id s \<le> l \<and> l < next_id s' \<and>
                  operandGet s' u = OpResult l 0 \<and> kind (opsOf s' l) = GlobalLoadOp g)"
    and inj: "inj_on (operandGet s') (set ?E)"
    and ci: "length (moduleInitializers s') = length (moduleInitializers s) +
            (if ?E \<noteq> [] \<and> hm (OpResult r j) = None then 1 else 0)"
    and cg: "length (moduleGlobals s') = length (moduleGlobals s) +
            (if ?E \<noteq> [] \<and> hm (OpResult r j) = None then numResults s r else 0)"
    unfolding usesDone_def sh' fst_conv snd_conv by blast+
  from ld obtain g where g: "hm' (OpResult r j) = Some g"
    "\<forall>u \<in> set ?E. \<exists>l. next_id s \<le> l \<and> l < next_id s' \<and>
                  operandGet s' u = OpResult l 0 \<and> kind (opsOf s' l) = GlobalLoadOp g" by blast
  have old: "hm (OpResult r j) = None \<or> hm (OpResult r j) = Some g"
  proof (cases "hm (OpResult r j)")
    case None
    then show ?thesis by simp
  next
    case (Some g0)
    with mono g(1) show ?thesis by auto
  qed
  have "hoistUses env us (s, hm) = Inr (s', hm') \<and>
           hm' (OpResult r j) = Some g \<and> (hm (OpResult r j) = None \<or> hm (OpResult r j) = Some g) \<and>
           (\<forall>u \<in> set ?E. \<exists>l. next_id s \<le> l \<and>
               operandGet s' u = OpResult l 0 \<and> kind (opsOf s' l) = GlobalLoadOp g) \<and>
           inj_on (operandGet s') (set ?E) \<and>
           length (moduleInitializers s') = length (moduleInitializers s) +
              (if hm (OpResult r j) = None then 1 else 0) \<and>
           length (moduleGlobals s') = length (moduleGlobals s) +
              (if hm (OpResult r j) = None then numResults s r else 0)"
    using run sh' g old inj ci cg e by auto
  then show ?thesis by blast
qed

theorem escapes_share_one_global_witness:
  "\<exists>s' hm' g. hoistUses envA [(4, 0), (5, 1)] (progA, Map.empty) = Inr (s', hm') \<and>
      hm' (OpResult 3 0) = Some g \<and>
      length (moduleInitializers s') = 1 \<and> length (moduleGlobals s') = 1 \<and>
      operandGet s' (4, 0) \<noteq> operandGet s' (5, 1) \<and>
      list_all (\<lambda>u. case operandGet s' u of OpResult l q \<Rightarrow> kind (opsOf s' l) = GlobalLoadOp g
                     | BlockArg a q \<Rightarrow> False) [(4, 0), (5, 1)]"
proof -
  have h1: "wfState progA" by code_simp
  have h2: "memoInv progA Map.empty" by (rule memoInv_empty)
  have h3: "headAtTop progA" by code_simp
  have h4: "3 < next_id progA" by code_simp
  have h5: "0 < numResults progA 3" by code_simp
  have h6: "distinct [(4, 0), (5, 1 :: nat)]" by simp
  have h7: "\<forall>u \<in> set [(4, 0), (5, 1)]. fst u \<in> set (opOrder progA) \<and>
      snd u < length (operands (opsOf progA (fst u))) \<and> operandGet progA u = OpResult 3 0"
    by code_simp
  have h8: "filter (isEscape envA) [(4, 0), (5, 1)] = [(4, 0), (5, 1)]" by code_simp
  then have h8': "filter (isEscape envA) [(4, 0), (5, 1)] \<noteq> []" by simp
  have c0: "length (moduleInitializers progA) = 0" "length (moduleGlobals progA) = 0"
    "numResults progA 3 = 1" by code_simp+
  from escapes_share_one_global[OF h1 h2 h3 h4 h5 h6 h7 h8']
  obtain s' hm' g where r0: "hoistUses envA [(4, 0), (5, 1)] (progA, Map.empty) = Inr (s', hm') \<and>
           hm' (OpResult 3 0) = Some g \<and> (Map.empty (OpResult 3 0) = None \<or> Map.empty (OpResult 3 0) = Some g) \<and>
           (\<forall>u \<in> set (filter (isEscape envA) [(4, 0), (5, 1)]). \<exists>l. next_id progA \<le> l \<and>
               operandGet s' u = OpResult l 0 \<and> kind (opsOf s' l) = GlobalLoadOp g) \<and>
           inj_on (operandGet s') (set (filter (isEscape envA) [(4, 0), (5, 1)])) \<and>
           length (moduleInitializers s') = length (moduleInitializers progA) +
              (if Map.empty (OpResult 3 0) = None then 1 else 0) \<and>
           length (moduleGlobals s') = length (moduleGlobals progA) +
              (if Map.empty (OpResult 3 0) = None then numResults progA 3 else 0)"
    by metis
  then have r: "hoistUses envA [(4, 0), (5, 1)] (progA, Map.empty) = Inr (s', hm')"
    "hm' (OpResult 3 0) = Some g"
    "\<forall>u \<in> set (filter (isEscape envA) [(4, 0), (5, 1)]). \<exists>l. next_id progA \<le> l \<and>
               operandGet s' u = OpResult l 0 \<and> kind (opsOf s' l) = GlobalLoadOp g"
    "inj_on (operandGet s') (set (filter (isEscape envA) [(4, 0), (5, 1)]))"
    "length (moduleInitializers s') = length (moduleInitializers progA) +
              (if Map.empty (OpResult 3 0) = None then 1 else 0)"
    "length (moduleGlobals s') = length (moduleGlobals progA) +
              (if Map.empty (OpResult 3 0) = None then numResults progA 3 else 0)"
    by simp_all
  from r(4) have ne: "operandGet s' (4, 0) \<noteq> operandGet s' (5, 1)"
    unfolding h8 by (auto simp: inj_on_def)
  from r(3) have la: "list_all (\<lambda>u. case operandGet s' u of OpResult l q \<Rightarrow> kind (opsOf s' l) = GlobalLoadOp g
                     | BlockArg a q \<Rightarrow> False) [(4, 0), (5, 1)]"
    unfolding h8 by auto
  from r(5,6) c0 have "length (moduleInitializers s') = 1" "length (moduleGlobals s') = 1" by simp_all
  with r(1,2) ne la show ?thesis by blast
qed

section \<open>The loop over the backward slice\<close>



section \<open>The order of the initializers\<close>

text \<open>
  C4. An initializer whose body loads a global comes after the initializer whose body holds
  the store to that global. On \<open>progInit\<close> the pass returns a module where this is not
  so: the walk reaches the addition nested in initializer 1, its use by the runtime operation 4
  is an escape, the load 13 of the new global 10 is put before operation 4, in the body of
  initializer 1, and the store 11 to global 10 is in the body of the new initializer 7, which
  is the last operation of the module body.
\<close>

theorem initializer_reads_later_global:
  "(case runOnOperation envInit progInit of Inl e \<Rightarrow> [] | Inr s' \<Rightarrow> opOrder s')
      = [10, 0, 1, 13, 4, 5, 6, 7, 8, 9, 11, 12] \<and>
   (case runOnOperation envInit progInit of Inl e \<Rightarrow> []
     | Inr s' \<Rightarrow> map (\<lambda>x. kind (opsOf s' x)) [1, 13, 7, 11])
      = [InitializerOp, GlobalLoadOp 10, InitializerOp, GlobalStoreOp 10] \<and>
   (case runOnOperation envInit progInit of Inl e \<Rightarrow> []
     | Inr s' \<Rightarrow> [subtree s' 1, subtree s' 7, moduleInitializers s'])
      = [[13, 4, 5, 6], [8, 9, 11, 12], [1, 7]]"
proof -
  have a: "(case runOnOperation envInit progInit of Inl e \<Rightarrow> [] | Inr s' \<Rightarrow> opOrder s')
      = [10, 0, 1, 13, 4, 5, 6, 7, 8, 9, 11, 12]" by code_simp
  have b: "(case runOnOperation envInit progInit of Inl e \<Rightarrow> []
     | Inr s' \<Rightarrow> map (\<lambda>x. kind (opsOf s' x)) [1, 13, 7, 11])
      = [InitializerOp, GlobalLoadOp 10, InitializerOp, GlobalStoreOp 10]" by code_simp
  have c: "(case runOnOperation envInit progInit of Inl e \<Rightarrow> []
     | Inr s' \<Rightarrow> [subtree s' 1, subtree s' 7, moduleInitializers s'])
      = [[13, 4, 5, 6], [8, 9, 11, 12], [1, 7]]" by code_simp
  from a b c show ?thesis by simp
qed

section \<open>Globals before their loads\<close>



end
